theory Spec2Isabelle
  imports Complex_Main "HOL-Library.Multiset" "HOL-Library.Char_ord" "HOL-Library.List_Lexorder"
    "HOL-Library.Log_Nat"
begin

section \<open>Machine arithmetic and the clock\<close>

text \<open>
  The rate limiter computes on Go's \<open>int64\<close>. The fields are modelled as \<open>int\<close>, and
  the one addition of the source that can leave the range, \<open>tb.tokens+tokensToAdd\<close>, wraps
  around as Go's signed addition does. The decrement \<open>tb.tokens--\<close> runs only when
  \<open>tokens > 0\<close> and the increment \<open>tokens++\<close> only when \<open>tokens < capacity\<close>, so neither
  can leave the range of an \<open>int64\<close> and they are written without the wrap.
\<close>

definition MaxInt64 :: int where
  "MaxInt64 = 9223372036854775807"

definition MinInt64 :: int where
  "MinInt64 = - 9223372036854775808"

definition int64 :: "int \<Rightarrow> bool" where
  "int64 x \<longleftrightarrow> MinInt64 \<le> x \<and> x \<le> MaxInt64"

definition wrap64 :: "int \<Rightarrow> int" where
  "wrap64 x = (x + 9223372036854775808) mod 18446744073709551616 - 9223372036854775808"

subsection \<open>Floating point\<close>

text \<open>
  The refill computes in \<open>float64\<close>. A \<open>float64\<close> value is the rational number it
  denotes, and every operation of the source rounds its exact result to the nearest
  \<open>float64\<close>, ties to the even significand, as IEEE 754 prescribes: \<open>float64 x\<close> is that
  rounding, for the range of normal numbers (a value of the refill is 0 or lies between
  a billionth and \<open>2 ^ 97\<close> in magnitude). For \<open>x > 0\<close>, \<open>float64_exponent x\<close> is the \<open>e\<close>
  with \<open>2 ^ e \<le> x < 2 ^ (e + 1)\<close>; a \<open>float64\<close> has 53 significant bits.
\<close>

definition round_half_even :: "rat \<Rightarrow> int" where
  "round_half_even x =
     (let n = \<lfloor>x\<rfloor>; r = x - of_int n
      in if r < 1 / 2 then n else if 1 / 2 < r then n + 1 else if even n then n else n + 1)"

definition float64_exponent :: "rat \<Rightarrow> int" where
  "float64_exponent x = (if 1 \<le> x then bitlen \<lfloor>x\<rfloor> - 1 else - bitlen (\<lceil>1 / x\<rceil> - 1))"

definition float64 :: "rat \<Rightarrow> rat" where
  "float64 x =
     (if x = 0 then 0
      else let q = 2 powi (float64_exponent \<bar>x\<bar> - 52)
           in sgn x * of_int (round_half_even (\<bar>x\<bar> / q)) * q)"

text \<open>
  The conversion \<open>int64(x)\<close> of a \<open>float64\<close> truncates towards zero. For a value outside
  the range of \<open>int64\<close> Go leaves the result to the implementation; \<open>int64_of_float\<close>
  takes the value that amd64 produces there (\<open>MinInt64\<close>), and no theorem below is stated
  at such a value.
\<close>

definition int64_of_float :: "rat \<Rightarrow> int" where
  "int64_of_float x =
     (let t = (if x < 0 then \<lceil>x\<rceil> else \<lfloor>x\<rfloor>) in if int64 t then t else MinInt64)"

subsection \<open>Time\<close>

text \<open>
  A \<open>time.Time\<close> is a reading of the process's monotonic clock in nanoseconds, and
  \<open>now.Sub(last)\<close>, a \<open>Duration\<close>, is the difference of two readings (readings of one
  process are less than the 292 years apart at which \<open>Sub\<close> saturates). Go's \<open>/\<close> and \<open>%\<close> on
  integers truncate towards zero. \<open>Duration.Seconds\<close> is the library's
  \<open>float64(sec) + float64(nsec)/1e9\<close> with \<open>sec = d / Second\<close> and \<open>nsec = d % Second\<close>.
  \<open>elapsed_seconds d\<close> is the exact number of seconds of the duration \<open>d\<close>.
\<close>

type_synonym time = int

definition go_quot :: "int \<Rightarrow> int \<Rightarrow> int" where
  "go_quot a b = sgn a * sgn b * (\<bar>a\<bar> div \<bar>b\<bar>)"

definition go_rem :: "int \<Rightarrow> int \<Rightarrow> int" where
  "go_rem a b = a - b * go_quot a b"

definition Seconds :: "int \<Rightarrow> rat" where
  "Seconds d =
     (let sec = go_quot d 1000000000; nsec = go_rem d 1000000000
      in float64 (float64 (of_int sec) + float64 (float64 (of_int nsec) / 1000000000)))"

definition elapsed_seconds :: "int \<Rightarrow> rat" where
  "elapsed_seconds d = of_int d / 1000000000"

definition min_int64 :: "int \<Rightarrow> int \<Rightarrow> int" where
  "min_int64 a b = (if a < b then a else b)"

section \<open>TokenBucket\<close>

text \<open>
  The mutex of the source makes each method body atomic; the model is the sequential
  composition of whole method calls, each given the clock reading it takes.
\<close>

record TokenBucket =
  capacity :: int
  tokens :: int
  refillRate :: int
  lastRefill :: time

definition NewTokenBucket :: "time \<Rightarrow> int \<Rightarrow> int \<Rightarrow> TokenBucket" where
  "NewTokenBucket now cap rate =
     \<lparr>capacity = cap, tokens = cap, refillRate = rate, lastRefill = now\<rparr>"

definition refill :: "time \<Rightarrow> TokenBucket \<Rightarrow> TokenBucket" where
  "refill now tb =
     (let elapsed = Seconds (now - lastRefill tb);
          tokensToAdd = int64_of_float (float64 (elapsed * float64 (of_int (refillRate tb))))
      in if tokensToAdd > 0
         then tb\<lparr>tokens := min_int64 (capacity tb) (wrap64 (tokens tb + tokensToAdd)),
                 lastRefill := now\<rparr>
         else tb)"

definition TokenBucket_Allow :: "time \<Rightarrow> TokenBucket \<Rightarrow> bool \<times> TokenBucket" where
  "TokenBucket_Allow now tb =
     (let tb1 = refill now tb
      in if tokens tb1 > 0 then (True, tb1\<lparr>tokens := tokens tb1 - 1\<rparr>) else (False, tb1))"

text \<open>Consecutive calls of \<open>Allow\<close> on one bucket, at the given clock readings.\<close>

fun Allow_calls :: "time list \<Rightarrow> TokenBucket \<Rightarrow> bool list \<times> TokenBucket" where
  "Allow_calls [] tb = ([], tb)"
| "Allow_calls (now # ts) tb =
     (let (ok, tb1) = TokenBucket_Allow now tb;
          (oks, tb2) = Allow_calls ts tb1
      in (ok # oks, tb2))"

text \<open>
  \<open>tokensToAdd now tb\<close> is the whole number of tokens that a refill of \<open>tb\<close> at \<open>now\<close> finds:
  the \<open>float64\<close> product of the source, rounded down. Where it is positive and fits in an
  \<open>int64\<close> it is the \<open>tokensToAdd\<close> of \<open>refill\<close>.
\<close>

definition tokensToAdd :: "time \<Rightarrow> TokenBucket \<Rightarrow> int" where
  "tokensToAdd now tb =
     \<lfloor>float64 (Seconds (now - lastRefill tb) * float64 (of_int (refillRate tb)))\<rfloor>"

subsection \<open>The contract of \<open>Allow\<close> in the specification's words\<close>

text \<open>
  \<open>spec_tokensToAdd\<close> is \<open>floor(elapsed_seconds * refillRate)\<close> in exact arithmetic, and
  \<open>spec_Allow n\<close> is the contract of one call for a number \<open>n\<close> of tokens to add: add
  them, capped at the capacity, and advance \<open>lastRefill\<close>, if \<open>n > 0\<close>; then decrement and
  return true exactly when \<open>tokens > 0\<close>.
\<close>

definition spec_tokensToAdd :: "time \<Rightarrow> TokenBucket \<Rightarrow> int" where
  "spec_tokensToAdd now tb = \<lfloor>elapsed_seconds (now - lastRefill tb) * of_int (refillRate tb)\<rfloor>"

definition spec_Allow :: "int \<Rightarrow> time \<Rightarrow> TokenBucket \<Rightarrow> bool \<times> TokenBucket" where
  "spec_Allow n now tb =
     (let tb1 = (if n > 0
                 then tb\<lparr>tokens := min (capacity tb) (tokens tb + n), lastRefill := now\<rparr>
                 else tb)
      in if tokens tb1 > 0 then (True, tb1\<lparr>tokens := tokens tb1 - 1\<rparr>) else (False, tb1))"

section \<open>TwoTierRateLimiter\<close>

text \<open>
  \<open>ipBuckets\<close> is a \<open>sync.Map\<close> from the client identifier to a pointer to its bucket:
  a map to buckets here, with the bucket written back after the call that mutates it.
  The background sweep \<open>cleanupIPBuckets\<close>, started by the constructor, runs every
  ten minutes on its own goroutine and is not part of a call of \<open>Allow\<close>; it is left out.
\<close>

record TwoTierRateLimiter =
  globalBucket :: TokenBucket
  ipBuckets :: "string \<rightharpoonup> TokenBucket"
  perIPCapacity :: int
  perIPRate :: int

definition NewTwoTierRateLimiter :: "time \<Rightarrow> int \<Rightarrow> int \<Rightarrow> int \<Rightarrow> int \<Rightarrow> TwoTierRateLimiter" where
  "NewTwoTierRateLimiter now globalCapacity globalRate perIPCap perIPRt =
     \<lparr>globalBucket = NewTokenBucket now globalCapacity globalRate,
      ipBuckets = Map.empty,
      perIPCapacity = perIPCap,
      perIPRate = perIPRt\<rparr>"

text \<open>
  \<open>getOrCreateIPBucket\<close>: the bucket stored for the identifier, or a new full one, stored.
  (With one caller at a time \<open>LoadOrStore\<close> stores the new bucket and returns it.)
\<close>

definition getOrCreateIPBucket ::
  "time \<Rightarrow> string \<Rightarrow> TwoTierRateLimiter \<Rightarrow> TokenBucket \<times> TwoTierRateLimiter" where
  "getOrCreateIPBucket now clientIP trl =
     (case ipBuckets trl clientIP of
        Some bucket \<Rightarrow> (bucket, trl)
      | None \<Rightarrow>
          (let newBucket = NewTokenBucket now (perIPCapacity trl) (perIPRate trl)
           in (newBucket, trl\<lparr>ipBuckets := (ipBuckets trl)(clientIP \<mapsto> newBucket)\<rparr>)))"

definition returnGlobalToken :: "TwoTierRateLimiter \<Rightarrow> TwoTierRateLimiter" where
  "returnGlobalToken trl =
     (if tokens (globalBucket trl) < capacity (globalBucket trl)
      then trl\<lparr>globalBucket := (globalBucket trl)\<lparr>tokens := tokens (globalBucket trl) + 1\<rparr>\<rparr>
      else trl)"

text \<open>
  One call of \<open>TwoTierRateLimiter.Allow\<close> reads the clock up to three times: in the global
  bucket's \<open>refill\<close>, in \<open>NewTokenBucket\<close> when the identifier has no bucket yet, and in the
  identifier bucket's \<open>refill\<close>. The three readings are the first argument.
\<close>

definition TwoTierRateLimiter_Allow ::
  "time \<times> time \<times> time \<Rightarrow> string \<Rightarrow> TwoTierRateLimiter \<Rightarrow> bool \<times> TwoTierRateLimiter" where
  "TwoTierRateLimiter_Allow clock clientIP trl =
     (case clock of (tGlobal, tCreate, tIP) \<Rightarrow>
        (case TokenBucket_Allow tGlobal (globalBucket trl) of (globalOk, g) \<Rightarrow>
           (let trl1 = trl\<lparr>globalBucket := g\<rparr>
            in if \<not> globalOk then (False, trl1)
               else (case getOrCreateIPBucket tCreate clientIP trl1 of (ipBucket, trl2) \<Rightarrow>
                      (case TokenBucket_Allow tIP ipBucket of (ipOk, b) \<Rightarrow>
                         (let trl3 = trl2\<lparr>ipBuckets := (ipBuckets trl2)(clientIP \<mapsto> b)\<rparr>
                          in if \<not> ipOk then (False, returnGlobalToken trl3)
                             else (True, trl3)))))))"

text \<open>Consecutive calls of \<open>TwoTierRateLimiter.Allow\<close>, each with its clock readings and identifier.\<close>

fun Allow_requests ::
  "((time \<times> time \<times> time) \<times> string) list \<Rightarrow> TwoTierRateLimiter \<Rightarrow> bool list \<times> TwoTierRateLimiter" where
  "Allow_requests [] trl = ([], trl)"
| "Allow_requests ((clock, clientIP) # rs) trl =
     (case TwoTierRateLimiter_Allow clock clientIP trl of (ok, trl1) \<Rightarrow>
        (case Allow_requests rs trl1 of (oks, trl2) \<Rightarrow> (ok # oks, trl2)))"


subsection \<open>Histories of one limiter's global bucket\<close>

text \<open>
  The two operations that write the global bucket: its own \<open>Allow\<close> at a clock reading, and
  the compensation \<open>returnGlobalToken\<close>.
\<close>

datatype global_op = GlobalAllow time | Compensate

fun global_step :: "global_op \<Rightarrow> TwoTierRateLimiter \<Rightarrow> TwoTierRateLimiter" where
  "global_step (GlobalAllow now) trl =
     trl\<lparr>globalBucket := snd (TokenBucket_Allow now (globalBucket trl))\<rparr>"
| "global_step Compensate trl = returnGlobalToken trl"

fun global_run :: "global_op list \<Rightarrow> TwoTierRateLimiter \<Rightarrow> TwoTierRateLimiter" where
  "global_run [] trl = trl"
| "global_run (op # ops) trl = global_run ops (global_step op trl)"

text \<open>
  \<open>refill_fits now tb\<close>: the refill of \<open>tb\<close> at \<open>now\<close> stays in the range of \<open>int64\<close>, both the
  number of tokens to add and the sum \<open>tokens + tokensToAdd\<close>.
  \<open>run_fits ops trl\<close>: every refill along the history does.
\<close>

definition refill_fits :: "time \<Rightarrow> TokenBucket \<Rightarrow> bool" where
  "refill_fits now tb \<longleftrightarrow>
     tokensToAdd now tb \<le> MaxInt64 \<and> tokens tb + tokensToAdd now tb \<le> MaxInt64"

fun run_fits :: "global_op list \<Rightarrow> TwoTierRateLimiter \<Rightarrow> bool" where
  "run_fits [] trl = True"
| "run_fits (GlobalAllow now # ops) trl =
     (refill_fits now (globalBucket trl) \<and> run_fits ops (global_step (GlobalAllow now) trl))"
| "run_fits (Compensate # ops) trl = run_fits ops (global_step Compensate trl)"

definition bucket_inv :: "TokenBucket \<Rightarrow> bool" where
  "bucket_inv tb \<longleftrightarrow> 0 \<le> tokens tb \<and> tokens tb \<le> capacity tb"

text \<open>A bucket of the largest capacity, after one admitted call at its creation time.\<close>

definition unlimited_bucket :: TokenBucket where
  "unlimited_bucket = snd (TokenBucket_Allow 0 (NewTokenBucket 0 MaxInt64 2))"

definition unlimited_limiter :: TwoTierRateLimiter where
  "unlimited_limiter = NewTwoTierRateLimiter 0 MaxInt64 2 10 10"


definition drained_limiter :: TwoTierRateLimiter where
  "drained_limiter =
     \<lparr>globalBucket = \<lparr>capacity = 2, tokens = 0, refillRate = 2, lastRefill = 0\<rparr>,
      ipBuckets = [''192.168.1.1'' \<mapsto> \<lparr>capacity = 10, tokens = 9, refillRate = 10, lastRefill = 0\<rparr>],
      perIPCapacity = 10, perIPRate = 10\<rparr>"

subsection \<open>Wait\<close>

text \<open>
  \<open>Wait\<close> creates a ticker of period 100 ms and loops on a \<open>select\<close> over \<open>ctx.Done()\<close>
  and the ticker's channel. What it does depends on the context, on the clock and on the
  runtime; these are arguments of the model.

  A context is done from some clock reading on, or never: \<open>Some (d, err)\<close> is a context
  whose \<open>Done()\<close> is closed at \<open>d\<close> (it was cancelled then, or its deadline passed then)
  and whose \<open>Err()\<close> is \<open>err\<close> from then on.
\<close>

datatype ctx_error = Canceled | DeadlineExceeded

type_synonym ctx = "(time \<times> ctx_error) option"

text \<open>
  A ticker delivers a tick on its channel \<open>C\<close> at every multiple of its period after its
  creation, and drops the ticks that fall due while the previous one has not been
  received. \<open>next_tick\<close> is the instant of the next tick to be delivered, which is ready
  to be received from then on; after a receive at \<open>t\<close> it is the first of the ticker's
  instants after \<open>t\<close>.
\<close>

definition Millisecond :: int where
  "Millisecond = 1000000"

record Ticker =
  period :: int
  next_tick :: time

definition NewTicker :: "time \<Rightarrow> int \<Rightarrow> Ticker" where
  "NewTicker now d = \<lparr>period = d, next_tick = now + d\<rparr>"

definition receive_tick :: "time \<Rightarrow> Ticker \<Rightarrow> Ticker" where
  "receive_tick t ticker =
     ticker\<lparr>next_tick := next_tick ticker + period ticker * (1 + (t - next_tick ticker) div period ticker)\<rparr>"

text \<open>
  The \<open>select\<close> statement, reached at the clock reading \<open>t\<close>. Each of its two cases can
  proceed from the later of \<open>t\<close> and the instant at which its channel is ready. The
  \<open>select\<close> takes the case that can proceed first; when both can proceed at once, as they
  do when both channels are ready on arrival, Go takes one of them by a pseudo-random
  choice, here the argument \<open>pick\<close>. The result is the case taken, a tick with the
  reading at which it is received.
\<close>

datatype select_case = CtxDone ctx_error | TickerC time

definition select_ready :: "ctx \<Rightarrow> Ticker \<Rightarrow> time \<Rightarrow> bool \<Rightarrow> select_case" where
  "select_ready ctx ticker t pick =
     (let tickAt = max t (next_tick ticker)
      in case ctx of
           None \<Rightarrow> TickerC tickAt
         | Some (d, err) \<Rightarrow>
             (let doneAt = max t d
              in if doneAt < tickAt then CtxDone err
                 else if tickAt < doneAt then TickerC tickAt
                 else if pick then TickerC tickAt else CtxDone err))"

text \<open>
  One iteration of the loop, as the runtime schedules it: the reading at which the loop
  reaches the \<open>select\<close>, the choice the \<open>select\<close> makes if it has one, and the clock
  readings of the call of \<open>Allow\<close> if the tick is taken. The loop can go on for ever;
  \<open>Wait\<close> is given the iterations of the loop that are scheduled, and is \<open>Pending\<close> when
  it has not returned within them. The first argument of \<open>Wait\<close> is the clock reading
  at which it creates its ticker.
\<close>

record iteration =
  selectAt :: time
  pickTick :: bool
  allowClock :: "time \<times> time \<times> time"

datatype wait_result = Pending | ReturnsNil | ReturnsErr ctx_error

fun Wait_loop ::
  "ctx \<Rightarrow> Ticker \<Rightarrow> iteration list \<Rightarrow> string \<Rightarrow> TwoTierRateLimiter
     \<Rightarrow> wait_result \<times> TwoTierRateLimiter" where
  "Wait_loop ctx ticker [] clientIP trl = (Pending, trl)"
| "Wait_loop ctx ticker (it # its) clientIP trl =
     (case select_ready ctx ticker (selectAt it) (pickTick it) of
        CtxDone err \<Rightarrow> (ReturnsErr err, trl)
      | TickerC t \<Rightarrow>
          (case TwoTierRateLimiter_Allow (allowClock it) clientIP trl of (ok, trl1) \<Rightarrow>
             if ok then (ReturnsNil, trl1)
             else Wait_loop ctx (receive_tick t ticker) its clientIP trl1))"

definition Wait ::
  "time \<Rightarrow> ctx \<Rightarrow> iteration list \<Rightarrow> string \<Rightarrow> TwoTierRateLimiter
     \<Rightarrow> wait_result \<times> TwoTierRateLimiter" where
  "Wait now ctx its clientIP trl =
     Wait_loop ctx (NewTicker now (100 * Millisecond)) its clientIP trl"

text \<open>
  The polls \<open>Wait\<close> makes: for each call of \<open>Allow\<close>, the reading at which its tick was
  received and its result.
\<close>

fun loop_polls ::
  "ctx \<Rightarrow> Ticker \<Rightarrow> iteration list \<Rightarrow> string \<Rightarrow> TwoTierRateLimiter \<Rightarrow> (time \<times> bool) list" where
  "loop_polls ctx ticker [] clientIP trl = []"
| "loop_polls ctx ticker (it # its) clientIP trl =
     (case select_ready ctx ticker (selectAt it) (pickTick it) of
        CtxDone err \<Rightarrow> []
      | TickerC t \<Rightarrow>
          (case TwoTierRateLimiter_Allow (allowClock it) clientIP trl of (ok, trl1) \<Rightarrow>
             (t, ok) # (if ok then [] else loop_polls ctx (receive_tick t ticker) its clientIP trl1)))"

definition Wait_polls ::
  "time \<Rightarrow> ctx \<Rightarrow> iteration list \<Rightarrow> string \<Rightarrow> TwoTierRateLimiter \<Rightarrow> (time \<times> bool) list" where
  "Wait_polls now ctx its clientIP trl =
     loop_polls ctx (NewTicker now (100 * Millisecond)) its clientIP trl"

text \<open>
  Two schedules of two iterations. In the first the loop is back at the \<open>select\<close> half a
  microsecond after its first poll; in the second it is back 350 ms after it, when the
  tick of 200 ms is waiting. \<open>admitted_limiter\<close> is \<open>drained_limiter\<close> after a poll that
  succeeds at 500 ms.
\<close>

definition prompt_iterations :: "iteration list" where
  "prompt_iterations =
     [\<lparr>selectAt = 0, pickTick = True, allowClock = (100000000, 100000000, 100000000)\<rparr>,
      \<lparr>selectAt = 100000500, pickTick = True, allowClock = (500000000, 500000000, 500000000)\<rparr>]"

definition late_iterations :: "iteration list" where
  "late_iterations =
     [\<lparr>selectAt = 0, pickTick = True, allowClock = (100000000, 100000000, 100000000)\<rparr>,
      \<lparr>selectAt = 450000000, pickTick = True, allowClock = (500000000, 500000000, 500000000)\<rparr>]"

definition admitted_limiter :: TwoTierRateLimiter where
  "admitted_limiter =
     \<lparr>globalBucket = \<lparr>capacity = 2, tokens = 0, refillRate = 2, lastRefill = 500000000\<rparr>,
      ipBuckets = [''192.168.1.1'' \<mapsto> \<lparr>capacity = 10, tokens = 9, refillRate = 10, lastRefill = 500000000\<rparr>],
      perIPCapacity = 10, perIPRate = 10\<rparr>"

section \<open>Batch analysis\<close>

text \<open>
  The structs of \<open>models\<close>. Time stamps are wall-clock readings that no operation below
  reads back; the fields \<open>Timestamp\<close> are left out. The same field name in two structs is
  told apart, and from the library's constants, by a prefix: \<open>ai_\<close> for
  \<open>AdvertiserInfo\<close>, \<open>da_\<close> for \<open>DomainAnalysis\<close>, \<open>dr_\<close> for \<open>DomainResult\<close>, \<open>bs_\<close> for
  \<open>BatchSummary\<close>, \<open>de_\<close> for \<open>DomainError\<close>. A nil slice and an empty slice are both the empty list.
\<close>

record AdvertiserInfo =
  ai_Domain :: string
  ai_Count :: int

record DomainAnalysis =
  da_Domain :: string
  da_TotalAdvertisers :: int
  da_Advertisers :: "AdvertiserInfo list"
  da_Cached :: bool

record DomainResult =
  dr_Domain :: string
  dr_TotalAdvertisers :: int
  dr_Advertisers :: "AdvertiserInfo list"
  dr_Cached :: bool
  dr_Error :: string
  dr_Success :: bool

record BatchSummary =
  bs_Total :: int
  bs_Succeeded :: int
  bs_Failed :: int

record BatchAnalysisResponse =
  Results :: "DomainResult list"
  Summary :: BatchSummary
  Advertisers :: "AdvertiserInfo list"
  TotalAdvertisers :: int

record AdsTxtEntry =
  ExchangeDomain :: string
  PublisherID :: string
  AccountType :: string
  CertificationAuth :: string

record DomainError =
  de_Domain :: string
  de_Message :: string
  de_Err :: "string option"

text \<open>\<open>DomainError.Error\<close>: the two formats \<open>"domain %s: %s: %v"\<close> and \<open>"domain %s: %s"\<close>.\<close>

definition DomainError_Error :: "DomainError \<Rightarrow> string" where
  "DomainError_Error e =
     (case de_Err e of
        Some err \<Rightarrow> ''domain '' @ de_Domain e @ '': '' @ de_Message e @ '': '' @ err
      | None \<Rightarrow> ''domain '' @ de_Domain e @ '': '' @ de_Message e)"

definition NewDomainError :: "string \<Rightarrow> string \<Rightarrow> string option \<Rightarrow> DomainError" where
  "NewDomainError domain message err = \<lparr>de_Domain = domain, de_Message = message, de_Err = err\<rparr>"

subsection \<open>Counting maps and sorting\<close>

text \<open>
  A \<open>map[string]int\<close> is a list of pairs with one pair per key; \<open>m[k] += v\<close> adds to the
  pair of \<open>k\<close>, or makes one from the zero value. Go's \<open>int\<close> is 64 bits wide here and its
  additions wrap around. A \<open>range\<close> over the map visits the pairs in the order of the list;
  Go leaves that order open; the sorted slice built from the map does not depend on it
  (\<open>sort_Slice_unique\<close>).
\<close>

fun counts_add :: "string \<Rightarrow> int \<Rightarrow> (string \<times> int) list \<Rightarrow> (string \<times> int) list" where
  "counts_add k v [] = [(k, wrap64 (0 + v))]"
| "counts_add k v ((k', c) # m) =
     (if k' = k then (k', wrap64 (c + v)) # m else (k', c) # counts_add k v m)"

text \<open>\<open>Parser.CountAdvertisers\<close>: \<open>counts[entry.ExchangeDomain]++\<close> for every entry.\<close>

definition CountAdvertisers :: "AdsTxtEntry list \<Rightarrow> (string \<times> int) list" where
  "CountAdvertisers entries = fold (\<lambda>entry counts. counts_add (ExchangeDomain entry) 1 counts) entries []"

text \<open>
  The loop \<open>for domain, count := range counts\<close> of \<open>buildAnalysis\<close> and of
  \<open>aggregateResults\<close>: it appends one \<open>AdvertiserInfo\<close> per pair and adds up the counts.
\<close>

fun range_counts ::
  "(string \<times> int) list \<Rightarrow> AdvertiserInfo list \<times> int \<Rightarrow> AdvertiserInfo list \<times> int" where
  "range_counts [] acc = acc"
| "range_counts ((domain, cnt) # m) (advertisers, totalCount) =
     range_counts m (advertisers @ [\<lparr>ai_Domain = domain, ai_Count = cnt\<rparr>], wrap64 (totalCount + cnt))"

text \<open>
  The \<open>less\<close> function both calls of \<open>sort.Slice\<close> pass: by count descending, then by
  domain ascending. Strings compare byte by byte, a proper prefix first.
\<close>

definition advertiser_less :: "AdvertiserInfo \<Rightarrow> AdvertiserInfo \<Rightarrow> bool" where
  "advertiser_less a b =
     (if ai_Count a = ai_Count b then ai_Domain a < ai_Domain b else ai_Count a > ai_Count b)"

text \<open>
  \<open>sort.Slice\<close> is the library's sort: it returns a permutation of the slice in which no
  element is \<open>less\<close> than one before it, and promises nothing about the order of elements
  that \<open>less\<close> does not separate. Insertion sort stands for it.
\<close>

fun insert_Slice :: "('a \<Rightarrow> 'a \<Rightarrow> bool) \<Rightarrow> 'a \<Rightarrow> 'a list \<Rightarrow> 'a list" where
  "insert_Slice lt x [] = [x]"
| "insert_Slice lt x (y # ys) =
     (if lt y x then y # insert_Slice lt x ys else x # y # ys)"

fun sort_Slice :: "('a \<Rightarrow> 'a \<Rightarrow> bool) \<Rightarrow> 'a list \<Rightarrow> 'a list" where
  "sort_Slice lt [] = []"
| "sort_Slice lt (x # xs) = insert_Slice lt x (sort_Slice lt xs)"

subsection \<open>The single-domain pipeline\<close>

text \<open>
  The service holds a parser and the bound on concurrent fetches. What the cache and
  the fetcher answer to one call of \<open>AnalyzeDomain\<close> is an argument of that call:
  \<open>cache_Get\<close> is the cached analysis, or \<open>None\<close> when \<open>Get\<close> returns an error;
  \<open>fetcher_Fetch\<close> is the content, or the text of the error. \<open>Parse\<close> likewise returns the
  entries or the text of its error. Logging and the best-effort \<open>Set\<close> of the cache do
  not change what the call returns.
\<close>

record Service =
  parser_Parse :: "string \<Rightarrow> string + AdsTxtEntry list"
  maxConcurrent :: int

record collaborators =
  cache_Get :: "DomainAnalysis option"
  fetcher_Fetch :: "string + string"

definition buildAnalysis :: "string \<Rightarrow> AdsTxtEntry list \<Rightarrow> DomainAnalysis" where
  "buildAnalysis domain entries =
     (let counts = CountAdvertisers entries;
          (advertisers, totalCount) = range_counts counts ([], 0)
      in \<lparr>da_Domain = domain,
          da_TotalAdvertisers = totalCount,
          da_Advertisers = sort_Slice advertiser_less advertisers,
          da_Cached = False\<rparr>)"

definition AnalyzeDomain :: "Service \<Rightarrow> collaborators \<Rightarrow> string \<Rightarrow> DomainError + DomainAnalysis" where
  "AnalyzeDomain s env domain =
     (case cache_Get env of
        Some cached \<Rightarrow> Inr (cached\<lparr>da_Cached := True\<rparr>)
      | None \<Rightarrow>
          (case fetcher_Fetch env of
             Inl err \<Rightarrow> Inl (NewDomainError domain ''failed to fetch ads.txt'' (Some err))
           | Inr content \<Rightarrow>
               (case parser_Parse s content of
                  Inl err \<Rightarrow> Inl (NewDomainError domain ''failed to parse ads.txt'' (Some err))
                | Inr entries \<Rightarrow> Inr (buildAnalysis domain entries))))"

subsection \<open>The batch\<close>

text \<open>The body of one worker goroutine: the result it sends to the results channel.\<close>

definition worker :: "Service \<Rightarrow> collaborators \<Rightarrow> string \<Rightarrow> DomainResult" where
  "worker s env dom' =
     (case AnalyzeDomain s env dom' of
        Inl err \<Rightarrow>
          \<lparr>dr_Domain = dom', dr_TotalAdvertisers = 0, dr_Advertisers = [], dr_Cached = False,
           dr_Error = DomainError_Error err, dr_Success = False\<rparr>
      | Inr analysis \<Rightarrow>
          \<lparr>dr_Domain = dom', dr_TotalAdvertisers = da_TotalAdvertisers analysis,
           dr_Advertisers = da_Advertisers analysis, dr_Cached = da_Cached analysis,
           dr_Error = [], dr_Success = True\<rparr>)"

text \<open>
  The state of \<open>aggregateResults\<close> while it drains the channel, and the body of its loop
  for one result.
\<close>

record aggregator =
  results :: "DomainResult list"
  advertiserCounts :: "(string \<times> int) list"
  summary :: BatchSummary

definition aggregate_one :: "DomainResult \<Rightarrow> aggregator \<Rightarrow> aggregator" where
  "aggregate_one result st =
     (let st1 = st\<lparr>results := results st @ [result]\<rparr>
      in if dr_Success result
         then st1\<lparr>summary := (summary st1)\<lparr>bs_Succeeded := bs_Succeeded (summary st1) + 1\<rparr>,
                  advertiserCounts :=
                    fold (\<lambda>advertiser counts. counts_add (ai_Domain advertiser) (ai_Count advertiser) counts)
                      (dr_Advertisers result) (advertiserCounts st1)\<rparr>
         else st1\<lparr>summary := (summary st1)\<lparr>bs_Failed := bs_Failed (summary st1) + 1\<rparr>\<rparr>)"

text \<open>\<open>aggregateResults\<close>, given the results in the order they arrive on the channel.\<close>

definition aggregateResults :: "DomainResult list \<Rightarrow> int \<Rightarrow> BatchAnalysisResponse" where
  "aggregateResults arrived totalDomains =
     (let st = fold aggregate_one arrived
                 \<lparr>results = [], advertiserCounts = [],
                  summary = \<lparr>bs_Total = totalDomains, bs_Succeeded = 0, bs_Failed = 0\<rparr>\<rparr>;
          (advertisers, totalCount) = range_counts (advertiserCounts st) ([], 0)
      in \<lparr>Results = results st,
          Summary = summary st,
          Advertisers = sort_Slice advertiser_less advertisers,
          TotalAdvertisers = totalCount\<rparr>)"

text \<open>
  The workers run concurrently and send their results in an order the scheduler decides.
  A schedule is a list of numbers, one per task: the result of a task arrives after
  that many (modulo the number of places) of the results of the tasks behind it in the
  input. Every order of arrival is the order of some schedule.
\<close>

fun arrival :: "nat list \<Rightarrow> 'a list \<Rightarrow> 'a list" where
  "arrival sched [] = []"
| "arrival [] (x # xs) = x # arrival [] xs"
| "arrival (k # sched) (x # xs) =
     (let later = arrival sched xs; i = k mod (length later + 1)
      in take i later @ x # drop i later)"

text \<open>
  What a call does: it returns a value, it panics, or it blocks for ever.
\<close>

datatype 'a outcome = Returns 'a | Panics | Blocks

text \<open>
  \<open>AnalyzeDomains\<close>. \<open>envs i\<close> is what the collaborators answer to the worker of the
  \<open>i\<close>-th domain. The semaphore \<open>make(chan struct{}, s.maxConcurrent)\<close> panics for a
  negative size; with size 0 it is unbuffered, and as its only receives are the deferred
  releases no worker ever gets past \<open>sem <- struct{}{}\<close>: the results channel is never
  closed and the call never returns. With a positive size every worker gets its turn
  and the aggregator hands over the response when the channel is closed. The error
  returned is always nil (\<open>None\<close>).
\<close>

definition AnalyzeDomains ::
  "Service \<Rightarrow> (nat \<Rightarrow> collaborators) \<Rightarrow> nat list \<Rightarrow> string list
     \<Rightarrow> (BatchAnalysisResponse \<times> string option) outcome" where
  "AnalyzeDomains s envs sched domains =
     (if length domains = 0
      then Returns (\<lparr>Results = [], Summary = \<lparr>bs_Total = 0, bs_Succeeded = 0, bs_Failed = 0\<rparr>,
                     Advertisers = [], TotalAdvertisers = 0\<rparr>, None)
      else if maxConcurrent s < 0 then Panics
      else if maxConcurrent s = 0 then Blocks
      else Returns
             (aggregateResults
                (arrival sched (map (\<lambda>(i, dom'). worker s (envs i) dom') (enumerate 0 domains)))
                (int (length domains)),
              None))"

section \<open>The HTTP handler of the batch endpoint\<close>

record BatchAnalysisRequest =
  Domains :: "string list"

record ErrorResponse =
  Error :: string
  Message :: string

datatype response_body = ErrorBody ErrorResponse | BatchBody BatchAnalysisResponse

record http_response =
  statusCode :: int
  body :: response_body

definition writeErrorResponse :: "int \<Rightarrow> string \<Rightarrow> string \<Rightarrow> http_response" where
  "writeErrorResponse status error message =
     \<lparr>statusCode = status, body = ErrorBody \<lparr>Error = error, Message = message\<rparr>\<rparr>"

definition getBatchStatusCode :: "BatchAnalysisResponse \<Rightarrow> int" where
  "getBatchStatusCode response =
     (if bs_Failed (Summary response) = 0 then 200
      else if bs_Succeeded (Summary response) = 0 then 400
      else 207)"

text \<open>
  \<open>AnalyzeBatchDomains\<close>. The arguments are the handler's analysis service (its method
  \<open>AnalyzeDomains\<close>, an interface in the source) and the result of decoding the request
  body: the decoder's error or the request. The handler's result is the response it
  writes, if it writes one, and the list of the calls it made to the service.
\<close>

definition AnalyzeBatchDomains ::
  "(string list \<Rightarrow> (BatchAnalysisResponse \<times> string option) outcome)
     \<Rightarrow> string + BatchAnalysisRequest \<Rightarrow> http_response option \<times> string list list" where
  "AnalyzeBatchDomains analysisService decoded =
     (case decoded of
        Inl err \<Rightarrow> (Some (writeErrorResponse 400 ''invalid request body'' err), [])
      | Inr request \<Rightarrow>
          if length (Domains request) = 0
          then (Some (writeErrorResponse 400 ''domains array cannot be empty'' ''''), [])
          else if length (Domains request) > 100
          then (Some (writeErrorResponse 400 ''too many domains'' ''Maximum 100 domains per batch''), [])
          else (case analysisService (Domains request) of
                  Returns (response, Some err) \<Rightarrow>
                    (Some (writeErrorResponse 500 ''batch analysis failed'' err), [Domains request])
                | Returns (response, None) \<Rightarrow>
                    (Some \<lparr>statusCode = getBatchStatusCode response, body = BatchBody response\<rparr>,
                     [Domains request])
                | Panics \<Rightarrow> (None, [Domains request])
                | Blocks \<Rightarrow> (None, [Domains request])))"

section \<open>Notions the batch properties are stated with\<close>

text \<open>An advertiser as a pair of the counting map, and back.\<close>

definition advertiser_pair :: "AdvertiserInfo \<Rightarrow> string \<times> int" where
  "advertiser_pair a = (ai_Domain a, ai_Count a)"

definition pair_advertiser :: "string \<times> int \<Rightarrow> AdvertiserInfo" where
  "pair_advertiser p = \<lparr>ai_Domain = fst p, ai_Count = snd p\<rparr>"

text \<open>Adding a list of pairs to a counting map, as the nested loops of the aggregator do.\<close>

definition add_all :: "(string \<times> int) list \<Rightarrow> (string \<times> int) list \<Rightarrow> (string \<times> int) list" where
  "add_all adds m = fold (\<lambda>p counts. counts_add (fst p) (snd p) counts) adds m"

text \<open>The advertisers of the succeeded results, and the sum of a list of counts in Go's \<open>int\<close>.\<close>

definition succeeded_advertisers :: "DomainResult list \<Rightarrow> AdvertiserInfo list" where
  "succeeded_advertisers rs = concat (map dr_Advertisers (filter dr_Success rs))"

definition count_sum :: "AdvertiserInfo list \<Rightarrow> int" where
  "count_sum as = wrap64 (sum_list (map ai_Count as))"

text \<open>
  The order of the aggregate list: \<open>a\<close> comes before \<open>b\<close> when its count is greater, or the
  counts are equal and its domain is smaller. \<open>advertiser_le a b\<close> is what \<open>sort.Slice\<close>
  guarantees of an element \<open>a\<close> before an element \<open>b\<close>: \<open>b\<close> is not \<open>less\<close> than \<open>a\<close>.
\<close>

definition count_desc_domain_asc :: "AdvertiserInfo \<Rightarrow> AdvertiserInfo \<Rightarrow> bool" where
  "count_desc_domain_asc a b \<longleftrightarrow>
     ai_Count a > ai_Count b \<or> (ai_Count a = ai_Count b \<and> ai_Domain a < ai_Domain b)"

definition advertiser_le :: "AdvertiserInfo \<Rightarrow> AdvertiserInfo \<Rightarrow> bool" where
  "advertiser_le a b \<longleftrightarrow> \<not> advertiser_less b a"

text \<open>An analysis, or a result, whose total is the sum of the counts of its advertisers.\<close>

definition consistent_analysis :: "DomainAnalysis \<Rightarrow> bool" where
  "consistent_analysis a \<longleftrightarrow> da_TotalAdvertisers a = count_sum (da_Advertisers a)"

definition consistent_result :: "DomainResult \<Rightarrow> bool" where
  "consistent_result r \<longleftrightarrow> dr_TotalAdvertisers r = count_sum (dr_Advertisers r)"

subsection \<open>A batch of three domains\<close>

text \<open>
  A service with a small parser (every character of the content is one entry, named by
  that character) and its default bound of 10; the same service with the bound 0. For the
  batch \<open>a.com, b.com, c.com\<close> the collaborators answer: \<open>a.com\<close> is fetched, the fetch of
  \<open>b.com\<close> times out, \<open>c.com\<close> is served from the cache. \<open>example_response\<close> is the
  response when the results arrive in the order \<open>b.com, c.com, a.com\<close>.
\<close>

definition example_Parse :: "string \<Rightarrow> string + AdsTxtEntry list" where
  "example_Parse content =
     (if content = ''not ads.txt'' then Inl ''invalid ads.txt format''
      else Inr (map (\<lambda>c. \<lparr>ExchangeDomain = [c], PublisherID = [], AccountType = [],
                           CertificationAuth = []\<rparr>) content))"

definition example_service :: Service where
  "example_service = \<lparr>parser_Parse = example_Parse, maxConcurrent = 10\<rparr>"

definition stalled_service :: Service where
  "stalled_service = \<lparr>parser_Parse = example_Parse, maxConcurrent = 0\<rparr>"

definition example_envs :: "nat \<Rightarrow> collaborators" where
  "example_envs i =
     (if i = 0 then \<lparr>cache_Get = None, fetcher_Fetch = Inr ''gfgga''\<rparr>
      else if i = 1 then \<lparr>cache_Get = None, fetcher_Fetch = Inl ''timeout while fetching ads.txt''\<rparr>
      else \<lparr>cache_Get = Some \<lparr>da_Domain = ''c.com'', da_TotalAdvertisers = 2,
                               da_Advertisers = [\<lparr>ai_Domain = ''g'', ai_Count = 2\<rparr>],
                               da_Cached = False\<rparr>,
            fetcher_Fetch = Inl ''''\<rparr>)"

definition example_response :: BatchAnalysisResponse where
  "example_response =
     \<lparr>Results =
        [\<lparr>dr_Domain = ''b.com'', dr_TotalAdvertisers = 0, dr_Advertisers = [], dr_Cached = False,
          dr_Error = ''domain b.com: failed to fetch ads.txt: timeout while fetching ads.txt'',
          dr_Success = False\<rparr>,
         \<lparr>dr_Domain = ''c.com'', dr_TotalAdvertisers = 2,
          dr_Advertisers = [\<lparr>ai_Domain = ''g'', ai_Count = 2\<rparr>],
          dr_Cached = True, dr_Error = [], dr_Success = True\<rparr>,
         \<lparr>dr_Domain = ''a.com'', dr_TotalAdvertisers = 5,
          dr_Advertisers = [\<lparr>ai_Domain = ''g'', ai_Count = 3\<rparr>, \<lparr>ai_Domain = ''a'', ai_Count = 1\<rparr>,
                            \<lparr>ai_Domain = ''f'', ai_Count = 1\<rparr>],
          dr_Cached = False, dr_Error = [], dr_Success = True\<rparr>],
      Summary = \<lparr>bs_Total = 3, bs_Succeeded = 2, bs_Failed = 1\<rparr>,
      Advertisers = [\<lparr>ai_Domain = ''g'', ai_Count = 5\<rparr>, \<lparr>ai_Domain = ''a'', ai_Count = 1\<rparr>,
                     \<lparr>ai_Domain = ''f'', ai_Count = 1\<rparr>],
      TotalAdvertisers = 7\<rparr>"

text \<open>
  A cache that serves, for \<open>x.com\<close>, an analysis whose total (5) is not the sum of its
  counts (1), and the response to the batch of that one domain.
\<close>

definition stale_envs :: "nat \<Rightarrow> collaborators" where
  "stale_envs i =
     \<lparr>cache_Get = Some \<lparr>da_Domain = ''x.com'', da_TotalAdvertisers = 5,
                         da_Advertisers = [\<lparr>ai_Domain = ''google.com'', ai_Count = 1\<rparr>],
                         da_Cached = False\<rparr>,
      fetcher_Fetch = Inl ''''\<rparr>"

definition stale_response :: BatchAnalysisResponse where
  "stale_response =
     \<lparr>Results = [\<lparr>dr_Domain = ''x.com'', dr_TotalAdvertisers = 5,
                   dr_Advertisers = [\<lparr>ai_Domain = ''google.com'', ai_Count = 1\<rparr>],
                   dr_Cached = True, dr_Error = [], dr_Success = True\<rparr>],
      Summary = \<lparr>bs_Total = 1, bs_Succeeded = 1, bs_Failed = 0\<rparr>,
      Advertisers = [\<lparr>ai_Domain = ''google.com'', ai_Count = 1\<rparr>],
      TotalAdvertisers = 1\<rparr>"

section \<open>Properties of the token bucket\<close>

subsection \<open>Rounding to \<open>float64\<close>\<close>

lemma float64_zero [simp]: "float64 0 = 0"
  by (simp add: float64_def)

lemma round_half_even_le: "of_int (round_half_even y) \<le> y + 1 / 2"
proof -
  have 1: "of_int \<lfloor>y\<rfloor> \<le> y" by simp
  have 2: "y < of_int \<lfloor>y\<rfloor> + 1" by linarith
  show ?thesis
  proof (cases "y - of_int \<lfloor>y\<rfloor> < 1 / 2")
    case True
    then have "round_half_even y = \<lfloor>y\<rfloor>" by (simp add: round_half_even_def Let_def)
    with 1 show ?thesis by linarith
  next
    case False
    then have 3: "of_int \<lfloor>y\<rfloor> + 1 \<le> y + 1 / 2" by linarith
    from False have "round_half_even y = \<lfloor>y\<rfloor> \<or> round_half_even y = \<lfloor>y\<rfloor> + 1"
      by (simp add: round_half_even_def Let_def)
    then show ?thesis
    proof
      assume "round_half_even y = \<lfloor>y\<rfloor>"
      with 1 show ?thesis by linarith
    next
      assume "round_half_even y = \<lfloor>y\<rfloor> + 1"
      then have "of_int (round_half_even y) = (of_int \<lfloor>y\<rfloor> + 1 :: rat)" by simp
      with 3 show ?thesis by linarith
    qed
  qed
qed

lemma round_half_even_nonneg: "0 \<le> y \<Longrightarrow> 0 \<le> round_half_even y"
  by (auto simp: round_half_even_def Let_def)

lemma float64_exponent_le:
  assumes "0 < x"
  shows "2 powi (float64_exponent x) \<le> x"
proof (cases "1 \<le> x")
  case True
  let ?n = "\<lfloor>x\<rfloor>"
  from True have n: "0 < ?n" by simp
  from bitlen_bounds [OF n] have b: "2 ^ nat (bitlen ?n - 1) \<le> ?n" by simp
  from n have "1 \<le> bitlen ?n" by (auto simp: bitlen_alt_def)
  then have "(2::rat) powi (bitlen ?n - 1) = 2 ^ nat (bitlen ?n - 1)"
    by (simp add: power_int_def)
  also have "\<dots> = of_int (2 ^ nat (bitlen ?n - 1))" by simp
  also from b have "\<dots> \<le> of_int ?n" by (simp only: of_int_le_iff)
  also have "\<dots> \<le> x" by simp
  finally show ?thesis using True by (simp add: float64_exponent_def)
next
  case False
  let ?m = "\<lceil>1 / x\<rceil> - 1"
  let ?L = "bitlen ?m"
  from False assms have "1 < 1 / x" by (simp add: field_simps)
  then have "1 < \<lceil>1 / x\<rceil>" by linarith
  then have m: "0 < ?m" by simp
  from bitlen_bounds [OF m] have "?m < 2 ^ nat ?L" by simp
  then have "\<lceil>1 / x\<rceil> \<le> 2 ^ nat ?L" by simp
  then have "(of_int \<lceil>1 / x\<rceil> :: rat) \<le> of_int (2 ^ nat ?L)" by (simp only: of_int_le_iff)
  moreover have "1 / x \<le> of_int \<lceil>1 / x\<rceil>" by (rule le_of_int_ceiling)
  ultimately have "1 / x \<le> of_int (2 ^ nat ?L)" by (rule order_trans [rotated])
  then have "1 / x \<le> 2 ^ nat ?L" by simp
  with assms have "1 / 2 ^ nat ?L \<le> x"
    by (simp add: field_simps)
  moreover have "(2::rat) powi (- ?L) = 1 / 2 ^ nat ?L"
    using bitlen_nonneg [of ?m] by (simp add: power_int_def field_simps)
  ultimately show ?thesis using False by (simp add: float64_exponent_def)
qed

lemma float64_nonneg: "0 \<le> x \<Longrightarrow> 0 \<le> float64 x"
proof (cases "x = 0")
  case True
  then show ?thesis by simp
next
  case False
  assume "0 \<le> x"
  with False have x: "0 < x" by simp
  let ?q = "(2::rat) powi (float64_exponent x - 52)"
  have q: "0 < ?q" by simp
  with x have "0 \<le> x / ?q" by simp
  then have "0 \<le> round_half_even (x / ?q)" by (rule round_half_even_nonneg)
  with q x have "0 \<le> of_int (round_half_even (x / ?q)) * ?q" by simp
  with x show ?thesis by (simp add: float64_def Let_def)
qed

lemma float64_minus: "float64 (- x) = - float64 x"
  by (simp add: float64_def Let_def)

lemma float64_nonpos: "x \<le> 0 \<Longrightarrow> float64 x \<le> 0"
  using float64_nonneg [of "- x"] by (simp add: float64_minus)

lemma float64_le:
  assumes "0 \<le> x"
  shows "float64 x \<le> x * (1 + 1 / 2 ^ 53)"
proof (cases "x = 0")
  case True
  then show ?thesis by simp
next
  case False
  with assms have x: "0 < x" by simp
  let ?e = "float64_exponent x"
  let ?q = "(2::rat) powi (?e - 52)"
  have q: "0 < ?q" by simp
  have qe: "?q = 2 powi ?e / 2 ^ 52"
    by (simp add: power_int_diff)
  have "of_int (round_half_even (x / ?q)) \<le> x / ?q + 1 / 2" by (rule round_half_even_le)
  with q have "of_int (round_half_even (x / ?q)) * ?q \<le> (x / ?q + 1 / 2) * ?q"
    by (simp only: mult_le_cancel_right_pos)
  also from q have "\<dots> = x + ?q / 2" by (simp add: field_simps)
  also have "?q / 2 = 2 powi ?e / 2 ^ 53" by (simp add: qe)
  also have "x + 2 powi ?e / 2 ^ 53 \<le> x + x / 2 ^ 53"
    using float64_exponent_le [OF x] by (simp add: divide_right_mono)
  finally have "of_int (round_half_even (x / ?q)) * ?q \<le> x * (1 + 1 / 2 ^ 53)"
    by (simp add: algebra_simps)
  with x show ?thesis by (simp add: float64_def Let_def)
qed

lemma go_quot_rem_nonneg:
  "0 \<le> d \<Longrightarrow> go_quot d 1000000000 = d div 1000000000 \<and> go_rem d 1000000000 = d mod 1000000000"
  by (cases "d = 0") (simp_all add: go_quot_def go_rem_def minus_mult_div_eq_mod)

lemma go_quot_rem_neg:
  assumes "d < 0"
  shows "go_quot d 1000000000 \<le> 0 \<and> go_rem d 1000000000 \<le> 0"
proof -
  from assms have q: "go_quot d 1000000000 = - ((- d) div 1000000000)"
    by (simp add: go_quot_def)
  have "(- d) div 1000000000 * 1000000000 \<le> - d"
    using div_mult_mod_eq [of "- d" 1000000000] pos_mod_sign [of 1000000000 "- d"] by linarith
  with q assms show ?thesis
    by (simp add: go_rem_def) 
qed

lemma Seconds_nonpos:
  assumes "d < 0"
  shows "Seconds d \<le> 0"
proof -
  let ?sec = "go_quot d 1000000000" and ?nsec = "go_rem d 1000000000"
  from go_quot_rem_neg [OF assms] have s: "?sec \<le> 0" and n: "?nsec \<le> 0" by simp_all
  from s have a: "float64 (of_int ?sec) \<le> 0" by (intro float64_nonpos) simp
  from n have "float64 (of_int ?nsec) \<le> 0" by (intro float64_nonpos) simp
  then have "float64 (of_int ?nsec) / 1000000000 \<le> 0" by simp
  then have "float64 (float64 (of_int ?nsec) / 1000000000) \<le> 0" by (rule float64_nonpos)
  with a have "float64 (of_int ?sec) + float64 (float64 (of_int ?nsec) / 1000000000) \<le> 0" by simp
  then show ?thesis unfolding Seconds_def Let_def by (rule float64_nonpos)
qed

lemma Seconds_bound:
  assumes "0 \<le> d"
  shows "0 \<le> Seconds d \<and> Seconds d \<le> of_int d / 1000000000 * (1 + 1 / 2 ^ 53) ^ 3"
proof -
  let ?k = "1 + 1 / 2 ^ 53 :: rat"
  let ?sec = "d div 1000000000" and ?nsec = "d mod 1000000000"
  have k: "1 \<le> ?k" by simp
  from assms have sec: "0 \<le> ?sec" by (simp add: pos_imp_zdiv_nonneg_iff)
  have nsec: "0 \<le> ?nsec" by simp
  have split: "(of_int d :: rat) = of_int ?sec * 1000000000 + of_int ?nsec"
    using div_mult_mod_eq [of d 1000000000]
    by (metis of_int_add of_int_mult of_int_numeral)
  let ?a = "float64 (of_int ?sec)"
  let ?nf = "float64 (of_int ?nsec)"
  let ?fr = "float64 (?nf / 1000000000)"
  from sec have sec': "0 \<le> (of_int ?sec :: rat)" by simp
  from nsec have nsec': "0 \<le> (of_int ?nsec :: rat)" by (simp only: of_int_0_le_iff)
  from sec' have a0: "0 \<le> ?a" by (rule float64_nonneg)
  from sec' have a1: "?a \<le> of_int ?sec * ?k" by (rule float64_le)
  from nsec' have nf0: "0 \<le> ?nf" by (rule float64_nonneg)
  from nsec' have nf2: "?nf \<le> of_int ?nsec * ?k" by (rule float64_le)
  from nf0 have nf1: "0 \<le> ?nf / 1000000000" by simp
  then have b0: "0 \<le> ?fr" by (rule float64_nonneg)
  from nf1 have "?fr \<le> ?nf / 1000000000 * ?k" by (rule float64_le)
  also from nf2 have "\<dots> \<le> of_int ?nsec * ?k / 1000000000 * ?k"
    by (intro mult_right_mono divide_right_mono) simp_all
  finally have b1: "?fr \<le> of_int ?nsec / 1000000000 * ?k ^ 2"
    by (simp add: power2_eq_square algebra_simps)
  have "of_int ?sec * ?k \<le> of_int ?sec * ?k ^ 2"
    using sec by (intro mult_left_mono) (simp_all add: power2_eq_square)
  with a1 have a2: "?a \<le> of_int ?sec * ?k ^ 2" by simp
  from a0 b0 have s0: "0 \<le> ?a + ?fr" by simp
  then have S0: "0 \<le> float64 (?a + ?fr)" by (rule float64_nonneg)
  from s0 have "float64 (?a + ?fr) \<le> (?a + ?fr) * ?k" by (rule float64_le)
  also from a2 b1 have "\<dots> \<le> (of_int ?sec * ?k ^ 2 + of_int ?nsec / 1000000000 * ?k ^ 2) * ?k"
    by (intro mult_right_mono add_mono) simp_all
  also have "\<dots> = of_int d / 1000000000 * ?k ^ 3"
    by (simp add: split power2_eq_square power3_eq_cube algebra_simps)
  finally have "float64 (?a + ?fr) \<le> of_int d / 1000000000 * ?k ^ 3" .
  with S0 show ?thesis
    using go_quot_rem_nonneg [OF assms] by (simp add: Seconds_def Let_def)
qed

lemma product_early:
  assumes "0 < r" "d * r < 1000000000"
  shows "\<lfloor>float64 (Seconds d * float64 (of_int r))\<rfloor> \<le> 0"
proof (cases "d < 0")
  case True
  from assms(1) have "0 \<le> float64 (of_int r)" by (intro float64_nonneg) simp
  with Seconds_nonpos [OF True] have "Seconds d * float64 (of_int r) \<le> 0"
    by (simp add: mult_nonpos_nonneg)
  then have "float64 (Seconds d * float64 (of_int r)) \<le> 0" by (rule float64_nonpos)
  then show ?thesis by (simp add: floor_le_zero)
next
  case False
  then have d: "0 \<le> d" by simp
  let ?k = "1 + 1 / 2 ^ 53 :: rat"
  let ?x = "of_int d / 1000000000 :: rat"
  from Seconds_bound [OF d] have s0: "0 \<le> Seconds d" and s1: "Seconds d \<le> ?x * ?k ^ 3"
    by simp_all
  from assms(1) have r0: "0 \<le> float64 (of_int r)" by (intro float64_nonneg) simp
  from assms(1) have r1: "float64 (of_int r) \<le> of_int r * ?k" by (intro float64_le) simp
  from s0 r0 have p0: "0 \<le> Seconds d * float64 (of_int r)" by simp
  from d have x0: "0 \<le> ?x" by simp
  have "float64 (Seconds d * float64 (of_int r)) \<le> Seconds d * float64 (of_int r) * ?k"
    using p0 by (rule float64_le)
  also have "\<dots> \<le> (?x * ?k ^ 3) * (of_int r * ?k) * ?k"
    using s0 s1 r0 r1 x0 by (intro mult_right_mono mult_mono) simp_all
  also have "\<dots> = of_int (d * r) / 1000000000 * ?k ^ 5"
    by (simp add: power2_eq_square power3_eq_cube power_numeral_reduce algebra_simps)
  also have "\<dots> \<le> 999999999 / 1000000000 * ?k ^ 5"
  proof -
    from assms(2) have "d * r \<le> 999999999" by simp
    then have "(of_int (d * r) :: rat) \<le> 999999999" by (metis of_int_le_iff of_int_numeral)
    then show ?thesis by (intro mult_right_mono divide_right_mono) simp_all
  qed
  also have "\<dots> < 1" by (simp add: field_simps)
  finally have "float64 (Seconds d * float64 (of_int r)) < 1" .
  then have "\<lfloor>float64 (Seconds d * float64 (of_int r))\<rfloor> < 1"
    by (simp add: floor_less_iff)
  then show ?thesis by simp
qed

subsection \<open>The conversion and the refill\<close>

lemma int64_of_float_floor:
  "0 < \<lfloor>x\<rfloor> \<Longrightarrow> \<lfloor>x\<rfloor> \<le> MaxInt64 \<Longrightarrow> int64_of_float x = \<lfloor>x\<rfloor>"
  by (auto simp: int64_of_float_def int64_def MinInt64_def MaxInt64_def Let_def)

lemma int64_of_float_nonpos:
  assumes "\<lfloor>x\<rfloor> \<le> 0"
  shows "int64_of_float x \<le> 0"
proof (cases "x < 0")
  case True
  then have "\<lceil>x\<rceil> \<le> 0" by (simp add: ceiling_le_zero)
  with True show ?thesis
    by (simp add: int64_of_float_def Let_def MinInt64_def)
next
  case False
  with assms show ?thesis
    by (simp add: int64_of_float_def Let_def MinInt64_def)
qed

lemma wrap64_id: "int64 x \<Longrightarrow> wrap64 x = x"
  by (simp add: wrap64_def int64_def MinInt64_def MaxInt64_def)

lemma refill_no_tokens:
  "tokensToAdd now tb \<le> 0 \<Longrightarrow> refill now tb = tb"
  using int64_of_float_nonpos
    [of "float64 (Seconds (now - lastRefill tb) * float64 (of_int (refillRate tb)))"]
  by (simp add: refill_def Let_def tokensToAdd_def)

lemma refill_adds:
  assumes "0 < tokensToAdd now tb" "0 \<le> tokens tb \<or> int64 (tokens tb)" "refill_fits now tb"
  shows "refill now tb =
     tb\<lparr>tokens := min (capacity tb) (tokens tb + tokensToAdd now tb), lastRefill := now\<rparr>"
proof -
  from assms have c:
    "int64_of_float (float64 (Seconds (now - lastRefill tb) * float64 (of_int (refillRate tb))))
      = tokensToAdd now tb"
    unfolding tokensToAdd_def refill_fits_def by (simp add: int64_of_float_floor)
  from assms have "int64 (tokens tb + tokensToAdd now tb)"
    by (auto simp: int64_def refill_fits_def MinInt64_def)
  then have "wrap64 (tokens tb + tokensToAdd now tb) = tokens tb + tokensToAdd now tb"
    by (rule wrap64_id)
  with assms(1) c show ?thesis
    by (simp add: refill_def Let_def min_int64_def min_def)
qed

lemma refill_capacity [simp]: "capacity (refill now tb) = capacity tb"
  by (simp add: refill_def Let_def)

lemma refill_upper:
  "tokens tb \<le> capacity tb \<Longrightarrow> tokens (refill now tb) \<le> capacity (refill now tb)"
  by (simp add: refill_def Let_def min_int64_def)

lemma refill_lower:
  assumes "0 \<le> tokens tb" "refill_fits now tb"
  shows "0 \<le> tokens (refill now tb) \<or> capacity tb < 0"
proof (cases "0 < tokensToAdd now tb")
  case True
  with assms show ?thesis by (auto simp add: refill_adds)
next
  case False
  with assms show ?thesis by (simp add: refill_no_tokens)
qed

subsection \<open>The refill in \<open>float64\<close> and in exact arithmetic\<close>

lemma Seconds_zero [simp]: "Seconds 0 = 0"
  by (simp add: Seconds_def go_quot_def go_rem_def)

lemma tokensToAdd_same_time:
  "lastRefill tb = now \<Longrightarrow> tokensToAdd now tb = 0"
  by (simp add: tokensToAdd_def)

lemma go_quot_minus: "go_quot (- d) b = - go_quot d b"
  by (simp add: go_quot_def sgn_minus)

lemma go_rem_minus: "go_rem (- d) b = - go_rem d b"
  by (simp add: go_rem_def go_quot_minus)

lemma Seconds_minus: "Seconds (- d) = - Seconds d"
proof -
  let ?a = "float64 (of_int (go_quot d 1000000000))"
  let ?b = "float64 (float64 (of_int (go_rem d 1000000000)) / 1000000000)"
  have "Seconds (- d) = float64 (- ?a + - ?b)"
    by (simp add: Seconds_def Let_def go_quot_minus go_rem_minus float64_minus)
  also have "\<dots> = float64 (- (?a + ?b))" by simp
  also have "\<dots> = - float64 (?a + ?b)" by (rule float64_minus)
  finally show ?thesis by (simp add: Seconds_def Let_def)
qed

lemma product_below_one:
  assumes "d * r < 1000000000"
  shows "\<lfloor>float64 (Seconds d * float64 (of_int r))\<rfloor> \<le> 0"
proof -
  consider "0 < r" | "r = 0" | "r < 0" "0 \<le> d" | "r < 0" "d < 0" by linarith
  then show ?thesis
  proof cases
    case 1
    then show ?thesis using assms by (rule product_early)
  next
    case 2
    then show ?thesis by simp
  next
    case 3
    from 3(2) have "0 \<le> Seconds d" using Seconds_bound by simp
    moreover from 3(1) have "float64 (of_int r) \<le> 0" by (intro float64_nonpos) simp
    ultimately have "Seconds d * float64 (of_int r) \<le> 0" by (simp add: mult_nonneg_nonpos)
    then have "float64 (Seconds d * float64 (of_int r)) \<le> 0" by (rule float64_nonpos)
    then show ?thesis by (simp add: floor_le_zero)
  next
    case 4
    from 4(1) have r: "0 < - r" by simp
    from assms have "(- d) * (- r) < 1000000000" by simp
    with r have "\<lfloor>float64 (Seconds (- d) * float64 (of_int (- r)))\<rfloor> \<le> 0"
      by (rule product_early)
    then show ?thesis by (simp add: Seconds_minus float64_minus)
  qed
qed

lemma tokensToAdd_early:
  assumes "spec_tokensToAdd now tb \<le> 0"
  shows "tokensToAdd now tb \<le> 0"
proof -
  from assms have "elapsed_seconds (now - lastRefill tb) * of_int (refillRate tb) < 1"
    by (simp add: spec_tokensToAdd_def floor_le_iff)
  then have "(of_int ((now - lastRefill tb) * refillRate tb) :: rat) < of_int 1000000000"
    by (simp add: elapsed_seconds_def field_simps)
  then have "(now - lastRefill tb) * refillRate tb < 1000000000"
    by (simp only: of_int_less_iff)
  then show ?thesis
    unfolding tokensToAdd_def by (rule product_below_one)
qed

lemma spec_tokensToAdd_before_period:
  assumes "0 < refillRate tb"
    and "elapsed_seconds (now - lastRefill tb) < 1 / of_int (refillRate tb)"
  shows "spec_tokensToAdd now tb \<le> 0"
proof -
  from assms have "elapsed_seconds (now - lastRefill tb) * of_int (refillRate tb) < 1"
    by (simp add: field_simps)
  then show ?thesis by (simp add: spec_tokensToAdd_def floor_le_iff)
qed

subsection \<open>The refill at the clock readings of the examples\<close>

text \<open>
  The refill evaluated at the durations and rates of the runs below, and the definitions
  a concrete run of the limiter unfolds.
\<close>

lemma int64_of_float_zero [simp]: "int64_of_float 0 = 0"
  by (simp add: int64_of_float_def int64_def MinInt64_def MaxInt64_def)

lemma refill_2_after_1s: "float64 (Seconds 1000000000 * float64 2) = 2"
  by code_simp

lemma refill_1_after_3s: "float64 (Seconds 3000000000 * float64 1) = 3"
  by code_simp

lemma refill_2_after_100ms: "int64_of_float (float64 (Seconds 100000000 * float64 2)) = 0"
  by code_simp

lemma refill_2_after_500ms: "float64 (Seconds 500000000 * float64 2) = 1"
  by code_simp

lemma refill_10_after_500ms: "float64 (Seconds 500000000 * float64 10) = 5"
  by code_simp

lemma int64_of_float_numeral [simp]:
  "int64_of_float (numeral n) = (if numeral n \<le> MaxInt64 then numeral n else MinInt64)"
  by (simp add: int64_of_float_def int64_def MinInt64_def)

lemma int64_of_float_one [simp]: "int64_of_float 1 = 1"
  by (simp add: int64_of_float_def int64_def MinInt64_def MaxInt64_def)

lemma floor_refill_2_after_100ms: "\<lfloor>float64 (Seconds 100000000 * float64 2)\<rfloor> = 0"
  by code_simp

lemma refill_100_after_580ms: "int64_of_float (float64 (Seconds 580000000 * float64 100)) = 57"
  by code_simp

lemma floor_refill_100_after_580ms: "\<lfloor>float64 (Seconds 580000000 * float64 100)\<rfloor> = 57"
  by code_simp

lemmas refill_samples = refill_2_after_1s refill_1_after_3s refill_2_after_100ms
        refill_2_after_500ms refill_10_after_500ms floor_refill_2_after_100ms
        refill_100_after_580ms floor_refill_100_after_580ms

lemmas eval_defs = NewTwoTierRateLimiter_def NewTokenBucket_def
        TokenBucket_Allow_def refill_def refill_samples int64_def MinInt64_def
        MaxInt64_def Let_def wrap64_def min_int64_def returnGlobalToken_def
        TwoTierRateLimiter_Allow_def getOrCreateIPBucket_def

subsection \<open>One call of \<open>Allow\<close>\<close>

lemma Allow_admit_no_refill:
  "tokensToAdd now tb \<le> 0 \<Longrightarrow> 0 < tokens tb \<Longrightarrow>
   TokenBucket_Allow now tb = (True, tb\<lparr>tokens := tokens tb - 1\<rparr>)"
  by (simp add: TokenBucket_Allow_def refill_no_tokens)

lemma Allow_deny_no_refill:
  "tokensToAdd now tb \<le> 0 \<Longrightarrow> tokens tb \<le> 0 \<Longrightarrow>
   TokenBucket_Allow now tb = (False, tb)"
  by (simp add: TokenBucket_Allow_def refill_no_tokens)


lemma Allow_upper:
  "tokens tb \<le> capacity tb \<Longrightarrow>
   tokens (snd (TokenBucket_Allow now tb)) \<le> capacity (snd (TokenBucket_Allow now tb))"
  using refill_upper [of tb now]
  by (simp add: TokenBucket_Allow_def Let_def)

lemma Allow_lower:
  assumes "0 \<le> tokens tb" "tokens tb \<le> capacity tb" "refill_fits now tb"
  shows "0 \<le> tokens (snd (TokenBucket_Allow now tb))"
  using refill_lower [OF assms(1,3)] assms(1,2)
  by (auto simp add: TokenBucket_Allow_def Let_def)

text \<open>
  C1 (as amended). Whenever the number of tokens to add and the sum \<open>tokens + tokensToAdd\<close>
  both fit in an \<open>int64\<close>, a call of \<open>TokenBucket.Allow\<close> does what the contract says for
  \<open>tokensToAdd\<close> the \<open>float64\<close> product \<open>elapsed.Seconds() * float64(refillRate)\<close> rounded
  down: if that is positive it adds it to \<open>tokens\<close>, capped at \<open>capacity\<close>, and sets
  \<open>lastRefill\<close> to now, otherwise it leaves the bucket as it is; then it returns true and
  decrements \<open>tokens\<close> exactly when \<open>tokens > 0\<close>, and returns false with no further change
  otherwise. That number is not positive whenever \<open>floor(elapsed_seconds * refillRate)\<close>
  is not. And a call that is denied leaves the bucket entirely as it found it, if the
  capacity is positive and \<open>tokens\<close> was not negative.
\<close>

theorem Allow_contract:
  assumes "int64 (tokens tb)" "refill_fits now tb"
  shows "TokenBucket_Allow now tb = spec_Allow (tokensToAdd now tb) now tb \<and>
         (spec_tokensToAdd now tb \<le> 0 \<longrightarrow> tokensToAdd now tb \<le> 0) \<and>
         (0 < capacity tb \<longrightarrow> 0 \<le> tokens tb \<longrightarrow> \<not> fst (TokenBucket_Allow now tb) \<longrightarrow>
            snd (TokenBucket_Allow now tb) = tb)"
proof (intro conjI impI)
  show c: "TokenBucket_Allow now tb = spec_Allow (tokensToAdd now tb) now tb"
  proof (cases "0 < tokensToAdd now tb")
    case True
    with assms show ?thesis
      by (simp add: TokenBucket_Allow_def spec_Allow_def Let_def refill_adds)
  next
    case False
    then show ?thesis
      by (simp add: TokenBucket_Allow_def spec_Allow_def Let_def refill_no_tokens)
  qed
  show "tokensToAdd now tb \<le> 0" if "spec_tokensToAdd now tb \<le> 0"
    using that by (rule tokensToAdd_early)
  show "snd (TokenBucket_Allow now tb) = tb"
    if "0 < capacity tb" "0 \<le> tokens tb" "\<not> fst (TokenBucket_Allow now tb)"
  proof (cases "0 < tokensToAdd now tb")
    case True
    with that(1,2) have "0 < min (capacity tb) (tokens tb + tokensToAdd now tb)" by simp
    with True have "fst (spec_Allow (tokensToAdd now tb) now tb)"
      by (simp add: spec_Allow_def Let_def)
    with c that(3) show ?thesis by simp
  next
    case False
    with that(3) show ?thesis
      by (simp add: TokenBucket_Allow_def Let_def refill_no_tokens split: if_splits)
  qed
qed

text \<open>
  A bucket of rate 2 that is empty: one second after its last refill it gets two tokens
  and admits the call; a tenth of a second after, it gets none and denies the call,
  unchanged.
\<close>

theorem Allow_contract_witness:
  "int64 (tokens \<lparr>capacity = 3, tokens = 0, refillRate = 2, lastRefill = 0\<rparr>) \<and>
   refill_fits 1000000000 \<lparr>capacity = 3, tokens = 0, refillRate = 2, lastRefill = 0\<rparr> \<and>
   TokenBucket_Allow 1000000000 \<lparr>capacity = 3, tokens = 0, refillRate = 2, lastRefill = 0\<rparr> =
     (True, \<lparr>capacity = 3, tokens = 1, refillRate = 2, lastRefill = 1000000000\<rparr>) \<and>
   refill_fits 100000000 \<lparr>capacity = 3, tokens = 0, refillRate = 2, lastRefill = 0\<rparr> \<and>
   spec_tokensToAdd 100000000 \<lparr>capacity = 3, tokens = 0, refillRate = 2, lastRefill = 0\<rparr> \<le> 0 \<and>
   tokensToAdd 100000000 \<lparr>capacity = 3, tokens = 0, refillRate = 2, lastRefill = 0\<rparr> \<le> 0 \<and>
   \<not> fst (TokenBucket_Allow 100000000 \<lparr>capacity = 3, tokens = 0, refillRate = 2, lastRefill = 0\<rparr>) \<and>
   snd (TokenBucket_Allow 100000000 \<lparr>capacity = 3, tokens = 0, refillRate = 2, lastRefill = 0\<rparr>) =
     \<lparr>capacity = 3, tokens = 0, refillRate = 2, lastRefill = 0\<rparr>"
proof -
  let ?tb = "\<lparr>capacity = 3, tokens = 0, refillRate = 2, lastRefill = 0\<rparr>"
  have h1: "int64 (tokens ?tb)"
    by (simp add: int64_def MinInt64_def MaxInt64_def)
  have h2: "refill_fits 1000000000 ?tb"
    by (simp add: refill_fits_def tokensToAdd_def refill_samples MaxInt64_def)
  have h3: "refill_fits 100000000 ?tb"
    by (simp add: refill_fits_def tokensToAdd_def refill_samples MaxInt64_def)
  have h4: "spec_tokensToAdd 100000000 ?tb \<le> 0"
    by (simp add: spec_tokensToAdd_def elapsed_seconds_def)
  have h5: "\<not> fst (TokenBucket_Allow 100000000 ?tb)"
    by (simp add: TokenBucket_Allow_def refill_def refill_samples Let_def)
  have v: "spec_Allow (tokensToAdd 1000000000 ?tb) 1000000000 ?tb =
      (True, \<lparr>capacity = 3, tokens = 1, refillRate = 2, lastRefill = 1000000000\<rparr>)"
    by (simp add: spec_Allow_def tokensToAdd_def refill_samples Let_def)
  from Allow_contract [OF h1 h2] v have a: "TokenBucket_Allow 1000000000 ?tb =
      (True, \<lparr>capacity = 3, tokens = 1, refillRate = 2, lastRefill = 1000000000\<rparr>)"
    by simp
  from Allow_contract [OF h1 h3] h4 have b: "tokensToAdd 100000000 ?tb \<le> 0"
    by blast
  have k1: "0 < capacity ?tb" and k2: "0 \<le> tokens ?tb" by simp_all
  have c: "snd (TokenBucket_Allow 100000000 ?tb) = ?tb"
    by (rule Allow_contract [OF h1 h3, THEN conjunct2, THEN conjunct2, THEN mp, OF k1, THEN mp,
          OF k2, THEN mp, OF h5])
  from h1 h2 a h3 h4 b h5 c show ?thesis
    by (intro conjI)
qed

text \<open>
  C1 as stated fails in two ways. The product is a \<open>float64\<close> product: 580 ms after the
  last refill a bucket of rate 100 is due \<open>floor(0.58 * 100) = 58\<close> tokens, and the code
  adds 57 (the \<open>float64\<close> nearest to 0.58 is below it, and so is the product below 58).
  And the addition overflows: for a bucket of capacity \<open>MaxInt64\<close> and rate 2, one second
  after its first admitted call, two tokens are to be added to \<open>MaxInt64 - 1\<close>; the
  contract caps the sum at the capacity and admits the call, and the code wraps to
  \<open>MinInt64\<close> and denies it.
\<close>

theorem Allow_contract_counterexample:
  "spec_tokensToAdd 580000000 \<lparr>capacity = 100, tokens = 0, refillRate = 100, lastRefill = 0\<rparr> = 58 \<and>
   spec_Allow 58 580000000 \<lparr>capacity = 100, tokens = 0, refillRate = 100, lastRefill = 0\<rparr> =
     (True, \<lparr>capacity = 100, tokens = 57, refillRate = 100, lastRefill = 580000000\<rparr>) \<and>
   TokenBucket_Allow 580000000 \<lparr>capacity = 100, tokens = 0, refillRate = 100, lastRefill = 0\<rparr> =
     (True, \<lparr>capacity = 100, tokens = 56, refillRate = 100, lastRefill = 580000000\<rparr>) \<and>
   tokens unlimited_bucket = MaxInt64 - 1 \<and>
   spec_tokensToAdd 1000000000 unlimited_bucket = 2 \<and>
   spec_Allow 2 1000000000 unlimited_bucket =
     (True, \<lparr>capacity = MaxInt64, tokens = MaxInt64 - 1, refillRate = 2, lastRefill = 1000000000\<rparr>) \<and>
   TokenBucket_Allow 1000000000 unlimited_bucket =
     (False, \<lparr>capacity = MaxInt64, tokens = MinInt64, refillRate = 2, lastRefill = 1000000000\<rparr>)"
  by (simp add: unlimited_bucket_def NewTokenBucket_def spec_Allow_def spec_tokensToAdd_def
      elapsed_seconds_def TokenBucket_Allow_def refill_def refill_samples int64_def MinInt64_def
      MaxInt64_def Let_def wrap64_def min_int64_def)

subsection \<open>The capacity invariant\<close>

lemma global_step_upper:
  "tokens (globalBucket trl) \<le> capacity (globalBucket trl) \<Longrightarrow>
   tokens (globalBucket (global_step op trl)) \<le> capacity (globalBucket (global_step op trl))"
  by (cases op) (simp_all add: Allow_upper returnGlobalToken_def)

lemma global_run_upper:
  "tokens (globalBucket trl) \<le> capacity (globalBucket trl) \<Longrightarrow>
   tokens (globalBucket (global_run ops trl)) \<le> capacity (globalBucket (global_run ops trl))"
  by (induction ops arbitrary: trl) (simp_all add: global_step_upper)

lemma global_run_inv:
  "bucket_inv (globalBucket trl) \<Longrightarrow> run_fits ops trl \<Longrightarrow>
   bucket_inv (globalBucket (global_run ops trl))"
proof (induction ops arbitrary: trl)
  case Nil
  then show ?case by simp
next
  case (Cons op ops)
  show ?case
  proof (cases op)
    case (GlobalAllow now)
    with Cons.prems have "bucket_inv (globalBucket (global_step op trl))"
      by (simp add: bucket_inv_def Allow_upper Allow_lower)
    with Cons.IH [of "global_step op trl"] Cons.prems GlobalAllow show ?thesis by simp
  next
    case Compensate
    with Cons.prems have "bucket_inv (globalBucket (global_step op trl))"
      by (simp add: bucket_inv_def returnGlobalToken_def)
    with Cons.IH [of "global_step op trl"] Cons.prems Compensate show ?thesis by simp
  qed
qed

text \<open>
  The upper bound holds of every history of a limiter's global bucket: compensation never
  pushes the count above the capacity. The lower bound holds of the histories in which
  no refill leaves the range of \<open>int64\<close>.
\<close>

lemma global_bucket_bounds:
  assumes "0 \<le> C"
  shows "tokens (globalBucket (global_run ops (NewTwoTierRateLimiter t0 C r P pr)))
           \<le> capacity (globalBucket (global_run ops (NewTwoTierRateLimiter t0 C r P pr))) \<and>
         (run_fits ops (NewTwoTierRateLimiter t0 C r P pr) \<longrightarrow>
            bucket_inv (globalBucket (global_run ops (NewTwoTierRateLimiter t0 C r P pr))))"
proof -
  let ?trl = "NewTwoTierRateLimiter t0 C r P pr"
  have "tokens (globalBucket ?trl) \<le> capacity (globalBucket ?trl)"
    by (simp add: NewTwoTierRateLimiter_def NewTokenBucket_def)
  then have 1: "tokens (globalBucket (global_run ops ?trl)) \<le> capacity (globalBucket (global_run ops ?trl))"
    by (rule global_run_upper)
  from assms have "bucket_inv (globalBucket ?trl)"
    by (simp add: NewTwoTierRateLimiter_def NewTokenBucket_def bucket_inv_def)
  then have "run_fits ops ?trl \<Longrightarrow> bucket_inv (globalBucket (global_run ops ?trl))"
    by (rule global_run_inv)
  with 1 show ?thesis by blast
qed

text \<open>
  C2, at the input where the code breaks it. A limiter is created with the global
  capacity \<open>MaxInt64\<close> and the global rate 2, so its global bucket is full. At the first
  call of \<open>Allow\<close>, one second later, \<open>refill\<close> finds two tokens to add; the sum
  \<open>tokens + tokensToAdd\<close> wraps around to \<open>MinInt64 + 1\<close>, the cap
  \<open>min(capacity, tokens + tokensToAdd)\<close> keeps that negative number, and the call is
  denied: the invariant \<open>0 \<le> tokens \<le> capacity\<close>, which held before the call, does not
  hold after it.
\<close>

theorem capacity_invariant_overflow:
  "0 \<le> MaxInt64 \<and>
   globalBucket unlimited_limiter = NewTokenBucket 0 MaxInt64 2 \<and>
   bucket_inv (globalBucket unlimited_limiter) \<and>
   TokenBucket_Allow 1000000000 (globalBucket unlimited_limiter) =
     (False, \<lparr>capacity = MaxInt64, tokens = MinInt64 + 1, refillRate = 2, lastRefill = 1000000000\<rparr>) \<and>
   tokens (globalBucket (global_run [GlobalAllow 1000000000] unlimited_limiter)) = MinInt64 + 1 \<and>
   \<not> bucket_inv (globalBucket (global_run [GlobalAllow 1000000000] unlimited_limiter))"
  by (simp add: unlimited_limiter_def NewTwoTierRateLimiter_def NewTokenBucket_def
      TokenBucket_Allow_def refill_def refill_samples int64_def MinInt64_def
      MaxInt64_def Let_def wrap64_def min_int64_def bucket_inv_def)

subsection \<open>Saturation\<close>

lemma Allow_calls_append:
  "Allow_calls (ts @ us) tb =
     (fst (Allow_calls ts tb) @ fst (Allow_calls us (snd (Allow_calls ts tb))),
      snd (Allow_calls us (snd (Allow_calls ts tb))))"
  by (induction ts arbitrary: tb) (simp_all add: split_beta Let_def)

lemma Allow_calls_admit:
  "lastRefill tb = t \<Longrightarrow> tokens tb = int n \<Longrightarrow>
   Allow_calls (replicate n t) tb = (replicate n True, tb\<lparr>tokens := 0\<rparr>)"
proof (induction n arbitrary: tb)
  case 0
  then show ?case by simp
next
  case (Suc n)
  from Suc.prems have a: "TokenBucket_Allow t tb = (True, tb\<lparr>tokens := int n\<rparr>)"
    by (simp add: Allow_admit_no_refill tokensToAdd_same_time)
  from Suc.prems have "Allow_calls (replicate n t) (tb\<lparr>tokens := int n\<rparr>)
      = (replicate n True, tb\<lparr>tokens := int n\<rparr>\<lparr>tokens := 0\<rparr>)"
    by (intro Suc.IH) simp_all
  with a show ?case by simp
qed

lemma Allow_calls_deny:
  "tokens tb \<le> 0 \<Longrightarrow> \<forall>t\<in>set ts. tokensToAdd t tb \<le> 0 \<Longrightarrow>
   Allow_calls ts tb = (replicate (length ts) False, tb)"
  by (induction ts) (simp_all add: Allow_deny_no_refill)

text \<open>
  C5. A bucket freshly constructed at \<open>t0\<close> with capacity \<open>C \<ge> 0\<close> and rate \<open>r > 0\<close>
  admits exactly \<open>C\<close> consecutive calls of \<open>Allow\<close> made with no time elapsed, and then
  denies every further call made while less than \<open>1 / r\<close> seconds have elapsed since the
  last refill (which is still \<open>t0\<close>: a denied call changes nothing); in particular it
  denies call \<open>C + 1\<close> with no time elapsed.
\<close>

theorem saturation:
  assumes "0 \<le> C" "0 < r" "\<forall>t\<in>set ts. elapsed_seconds (t - t0) < 1 / of_int r"
  shows "Allow_calls (replicate (nat C) t0 @ ts) (NewTokenBucket t0 C r) =
           (replicate (nat C) True @ replicate (length ts) False,
            \<lparr>capacity = C, tokens = 0, refillRate = r, lastRefill = t0\<rparr>)"
proof -
  let ?tb = "NewTokenBucket t0 C r"
  let ?e = "\<lparr>capacity = C, tokens = 0, refillRate = r, lastRefill = t0\<rparr>"
  from assms(1) have 1: "Allow_calls (replicate (nat C) t0) ?tb = (replicate (nat C) True, ?e)"
    using Allow_calls_admit [of ?tb t0 "nat C"] by (simp add: NewTokenBucket_def)
  from assms(2,3) have "\<forall>t\<in>set ts. tokensToAdd t ?e \<le> 0"
    by (auto intro!: tokensToAdd_early spec_tokensToAdd_before_period)
  then have 2: "Allow_calls ts ?e = (replicate (length ts) False, ?e)"
    by (intro Allow_calls_deny) simp_all
  from 1 2 show ?thesis by (simp add: Allow_calls_append)
qed

theorem saturation_witness:
  "(0::int) \<le> 3 \<and> (0::int) < 2 \<and>
   elapsed_seconds (0 - 0) < 1 / of_int 2 \<and> elapsed_seconds (499999999 - 0) < 1 / of_int 2 \<and>
   Allow_calls [0, 0, 0, 0, 499999999] (NewTokenBucket 0 3 2) =
     ([True, True, True, False, False],
      \<lparr>capacity = 3, tokens = 0, refillRate = 2, lastRefill = 0\<rparr>)"
proof -
  have h: "\<forall>t\<in>set [0, 499999999]. elapsed_seconds (t - 0) < 1 / of_int 2"
    by (simp add: elapsed_seconds_def)
  from saturation [of 3 2 "[0, 499999999]" 0, OF _ _ h] h show ?thesis
    by (simp add: numeral_3_eq_3)
qed

section \<open>Properties of the two-tier limiter\<close>

lemma getOrCreate_global [simp]:
  "fst (getOrCreateIPBucket t ip (trl\<lparr>globalBucket := g\<rparr>)) = fst (getOrCreateIPBucket t ip trl)"
  by (simp add: getOrCreateIPBucket_def Let_def split: option.splits)

lemma getOrCreate_stored:
  "ipBuckets (snd (getOrCreateIPBucket t ip trl)) = (ipBuckets trl)(ip \<mapsto> fst (getOrCreateIPBucket t ip trl))"
  by (auto simp: getOrCreateIPBucket_def Let_def split: option.splits)

lemma getOrCreate_globalBucket [simp]:
  "globalBucket (snd (getOrCreateIPBucket t ip trl)) = globalBucket trl"
  by (simp add: getOrCreateIPBucket_def Let_def split: option.splits)

lemma getOrCreate_after_store [simp]:
  "fst (getOrCreateIPBucket t ip (trl\<lparr>ipBuckets := (m)(ip \<mapsto> b)\<rparr>)) = b"
  by (simp add: getOrCreateIPBucket_def Let_def)




lemma tokensToAdd_tokens [simp]: "tokensToAdd t (tb\<lparr>tokens := x\<rparr>) = tokensToAdd t tb"
  by (simp add: tokensToAdd_def)









text \<open>
  C4. If the global bucket denies, \<open>TwoTierRateLimiter.Allow\<close> returns false and leaves the
  registry of identifier buckets as it was; the call does not depend on the registry
  either: with any other registry \<open>m\<close> in its place (and any clock readings for the
  identifier's bucket) it returns the same result and the same limiter, \<open>m\<close> untouched.
\<close>

theorem global_denial_frame:
  assumes "\<not> fst (TokenBucket_Allow tGlobal (globalBucket trl))"
  shows "fst (TwoTierRateLimiter_Allow (tGlobal, tCreate, tIP) clientIP trl) = False \<and>
         ipBuckets (snd (TwoTierRateLimiter_Allow (tGlobal, tCreate, tIP) clientIP trl)) = ipBuckets trl \<and>
         TwoTierRateLimiter_Allow (tGlobal, tCreate', tIP') clientIP (trl\<lparr>ipBuckets := m\<rparr>) =
           (False, (snd (TwoTierRateLimiter_Allow (tGlobal, tCreate, tIP) clientIP trl))\<lparr>ipBuckets := m\<rparr>)"
  using assms by (simp add: TwoTierRateLimiter_Allow_def split_beta Let_def)

theorem global_denial_frame_witness:
  "\<not> fst (TokenBucket_Allow 0 (globalBucket drained_limiter)) \<and>
   TwoTierRateLimiter_Allow (0, 0, 0) ''192.168.1.1'' drained_limiter = (False, drained_limiter) \<and>
   TwoTierRateLimiter_Allow (0, 5, 7) ''192.168.1.1'' (drained_limiter\<lparr>ipBuckets := Map.empty\<rparr>)
     = (False, drained_limiter\<lparr>ipBuckets := Map.empty\<rparr>)"
proof -
  have h: "\<not> fst (TokenBucket_Allow 0 (globalBucket drained_limiter))"
    by (simp add: drained_limiter_def eval_defs)
  have v: "TwoTierRateLimiter_Allow (0, 0, 0) ''192.168.1.1'' drained_limiter = (False, drained_limiter)"
    by (simp add: drained_limiter_def eval_defs)
  from global_denial_frame [OF h, of 0 0 "''192.168.1.1''" 5 7 Map.empty] h v show ?thesis
    by simp
qed

subsection \<open>Wait\<close>

lemma Wait_loop_done:
  "select_ready ctx ticker (selectAt it) (pickTick it) = CtxDone err \<Longrightarrow>
   Wait_loop ctx ticker (it # its) ip trl = (ReturnsErr err, trl)"
  by simp

lemma Wait_loop_admitted:
  "select_ready ctx ticker (selectAt it) (pickTick it) = TickerC t \<Longrightarrow>
   fst (TwoTierRateLimiter_Allow (allowClock it) ip trl) \<Longrightarrow>
   Wait_loop ctx ticker (it # its) ip trl =
     (ReturnsNil, snd (TwoTierRateLimiter_Allow (allowClock it) ip trl))"
  by (simp add: split_beta)

lemma Wait_loop_denied:
  "select_ready ctx ticker (selectAt it) (pickTick it) = TickerC t \<Longrightarrow>
   \<not> fst (TwoTierRateLimiter_Allow (allowClock it) ip trl) \<Longrightarrow>
   Wait_loop ctx ticker (it # its) ip trl =
     Wait_loop ctx (receive_tick t ticker) its ip (snd (TwoTierRateLimiter_Allow (allowClock it) ip trl))"
  by (simp add: split_beta)

lemma loop_polls_done:
  "select_ready ctx ticker (selectAt it) (pickTick it) = CtxDone err \<Longrightarrow>
   loop_polls ctx ticker (it # its) ip trl = []"
  by simp

lemma loop_polls_admitted:
  "select_ready ctx ticker (selectAt it) (pickTick it) = TickerC t \<Longrightarrow>
   fst (TwoTierRateLimiter_Allow (allowClock it) ip trl) \<Longrightarrow>
   loop_polls ctx ticker (it # its) ip trl = [(t, True)]"
  by (simp add: split_beta)

lemma loop_polls_denied:
  "select_ready ctx ticker (selectAt it) (pickTick it) = TickerC t \<Longrightarrow>
   \<not> fst (TwoTierRateLimiter_Allow (allowClock it) ip trl) \<Longrightarrow>
   loop_polls ctx ticker (it # its) ip trl =
     (t, False) # loop_polls ctx (receive_tick t ticker) its ip (snd (TwoTierRateLimiter_Allow (allowClock it) ip trl))"
  by (simp add: split_beta)

lemmas loop_steps = Wait_loop_done Wait_loop_admitted Wait_loop_denied
  loop_polls_done loop_polls_admitted loop_polls_denied

lemma select_done_ctx:
  "select_ready ctx ticker s pick = CtxDone err \<Longrightarrow> \<exists>d. ctx = Some (d, err)"
  by (auto simp: select_ready_def Let_def split: option.splits if_splits)

lemma loop_nil_iff:
  "fst (Wait_loop ctx ticker its ip trl) = ReturnsNil \<longleftrightarrow>
   True \<in> snd ` set (loop_polls ctx ticker its ip trl)"
proof (induction its arbitrary: ticker trl)
  case Nil
  then show ?case by simp
next
  case (Cons it its)
  show ?case
  proof (cases "select_ready ctx ticker (selectAt it) (pickTick it)")
    case (CtxDone e)
    then show ?thesis
      unfolding Wait_loop_done [OF CtxDone] loop_polls_done [OF CtxDone] by simp
  next
    case (TickerC t)
    show ?thesis
    proof (cases "fst (TwoTierRateLimiter_Allow (allowClock it) ip trl)")
      case True
      show ?thesis
        unfolding Wait_loop_admitted [OF TickerC True] loop_polls_admitted [OF TickerC True]
        by simp
    next
      case False
      show ?thesis
        unfolding Wait_loop_denied [OF TickerC False] loop_polls_denied [OF TickerC False]
        using Cons.IH [of "receive_tick t ticker" "snd (TwoTierRateLimiter_Allow (allowClock it) ip trl)"]
        by simp
    qed
  qed
qed

lemma loop_err:
  "fst (Wait_loop ctx ticker its ip trl) = ReturnsErr err \<Longrightarrow>
   (\<exists>d. ctx = Some (d, err)) \<and> True \<notin> snd ` set (loop_polls ctx ticker its ip trl)"
proof (induction its arbitrary: ticker trl)
  case Nil
  then show ?case by simp
next
  case (Cons it its)
  show ?case
  proof (cases "select_ready ctx ticker (selectAt it) (pickTick it)")
    case (CtxDone e)
    from Cons.prems have "e = err"
      unfolding Wait_loop_done [OF CtxDone] by simp
    with CtxDone select_done_ctx [of ctx ticker "selectAt it" "pickTick it" err]
    show ?thesis
      unfolding loop_polls_done [OF CtxDone] by simp
  next
    case (TickerC t)
    show ?thesis
    proof (cases "fst (TwoTierRateLimiter_Allow (allowClock it) ip trl)")
      case True
      from Cons.prems show ?thesis
        unfolding Wait_loop_admitted [OF TickerC True] by simp
    next
      case False
      from Cons.prems show ?thesis
        unfolding Wait_loop_denied [OF TickerC False] loop_polls_denied [OF TickerC False]
        using Cons.IH [of "receive_tick t ticker" "snd (TwoTierRateLimiter_Allow (allowClock it) ip trl)"]
        by simp
    qed
  qed
qed

lemma loop_pending_iff:
  "fst (Wait_loop ctx ticker its ip trl) = Pending \<longleftrightarrow>
   length (loop_polls ctx ticker its ip trl) = length its \<and>
   True \<notin> snd ` set (loop_polls ctx ticker its ip trl)"
proof (induction its arbitrary: ticker trl)
  case Nil
  then show ?case by simp
next
  case (Cons it its)
  show ?case
  proof (cases "select_ready ctx ticker (selectAt it) (pickTick it)")
    case (CtxDone e)
    then show ?thesis
      unfolding Wait_loop_done [OF CtxDone] loop_polls_done [OF CtxDone] by simp
  next
    case (TickerC t)
    show ?thesis
    proof (cases "fst (TwoTierRateLimiter_Allow (allowClock it) ip trl)")
      case True
      show ?thesis
        unfolding Wait_loop_admitted [OF TickerC True] loop_polls_admitted [OF TickerC True]
        by simp
    next
      case False
      show ?thesis
        unfolding Wait_loop_denied [OF TickerC False] loop_polls_denied [OF TickerC False]
        using Cons.IH [of "receive_tick t ticker" "snd (TwoTierRateLimiter_Allow (allowClock it) ip trl)"]
        by simp
    qed
  qed
qed

lemma loop_done_first:
  assumes "ctx = Some (d, err)" "max (selectAt it) d < max (selectAt it) (next_tick ticker)"
  shows "Wait_loop ctx ticker (it # its) ip trl = (ReturnsErr err, trl)"
  using assms by (simp add: select_ready_def Let_def)

lemma loop_polls_are_Allow:
  "map snd (loop_polls ctx ticker its ip trl) =
     fst (Allow_requests (map (\<lambda>it. (allowClock it, ip)) (take (length (loop_polls ctx ticker its ip trl)) its)) trl) \<and>
   snd (Wait_loop ctx ticker its ip trl) =
     snd (Allow_requests (map (\<lambda>it. (allowClock it, ip)) (take (length (loop_polls ctx ticker its ip trl)) its)) trl)"
proof (induction its arbitrary: ticker trl)
  case Nil
  then show ?case by simp
next
  case (Cons it its)
  show ?case
  proof (cases "select_ready ctx ticker (selectAt it) (pickTick it)")
    case (CtxDone e)
    then show ?thesis
      unfolding Wait_loop_done [OF CtxDone] loop_polls_done [OF CtxDone] by simp
  next
    case (TickerC t)
    show ?thesis
    proof (cases "fst (TwoTierRateLimiter_Allow (allowClock it) ip trl)")
      case True
      show ?thesis
        unfolding Wait_loop_admitted [OF TickerC True] loop_polls_admitted [OF TickerC True]
        using True by (simp add: split_beta)
    next
      case False
      show ?thesis
        unfolding Wait_loop_denied [OF TickerC False] loop_polls_denied [OF TickerC False]
        using False Cons.IH [of "receive_tick t ticker" "snd (TwoTierRateLimiter_Allow (allowClock it) ip trl)"]
        by (simp add: split_beta)
    qed
  qed
qed

lemma receive_tick_period [simp]: "period (receive_tick t ticker) = period ticker"
  by (simp add: receive_tick_def)

lemma select_tick_time:
  "select_ready ctx ticker s pick = TickerC t \<Longrightarrow> t = max s (next_tick ticker)"
  by (auto simp: select_ready_def Let_def split: option.splits if_splits)

lemma receive_tick_next:
  assumes "0 < period ticker" "next_tick ticker \<le> t"
  shows "next_tick ticker + period ticker \<le> next_tick (receive_tick t ticker)"
proof -
  from assms have "0 \<le> (t - next_tick ticker) div period ticker"
    by (simp add: pos_imp_zdiv_nonneg_iff)
  then have "1 \<le> 1 + (t - next_tick ticker) div period ticker" by simp
  with assms(1) have "period ticker * 1 \<le> period ticker * (1 + (t - next_tick ticker) div period ticker)"
    by (intro mult_left_mono) simp_all
  then show ?thesis by (simp add: receive_tick_def)
qed

lemma receive_tick_after:
  assumes "0 < period ticker" "next_tick ticker \<le> t"
  shows "t < next_tick (receive_tick t ticker)"
proof -
  let ?p = "period ticker" and ?d = "t - next_tick ticker"
  from assms(1) have "?d mod ?p < ?p" by simp
  moreover have "?d = ?p * (?d div ?p) + ?d mod ?p" by simp
  ultimately have "?d < ?p * (?d div ?p) + ?p" by linarith
  then show ?thesis by (simp add: receive_tick_def algebra_simps)
qed

lemma receive_tick_on_time:
  "0 < period ticker \<Longrightarrow> next_tick (receive_tick (next_tick ticker) ticker) = next_tick ticker + period ticker"
  by (simp add: receive_tick_def)

lemma loop_polls_not_early:
  assumes "0 < period ticker"
  shows "i < length (loop_polls ctx ticker its ip trl) \<Longrightarrow>
         next_tick ticker + int i * period ticker \<le> fst (loop_polls ctx ticker its ip trl ! i)"
  using assms
proof (induction its arbitrary: ticker trl i)
  case Nil
  then show ?case by simp
next
  case (Cons it its)
  show ?case
  proof (cases "select_ready ctx ticker (selectAt it) (pickTick it)")
    case (CtxDone e)
    with Cons.prems show ?thesis by simp
  next
    case (TickerC t)
    then have t: "t = max (selectAt it) (next_tick ticker)" by (rule select_tick_time)
    let ?r = "TwoTierRateLimiter_Allow (allowClock it) ip trl"
    show ?thesis
    proof (cases i)
      case 0
      show ?thesis
      proof (cases "fst ?r")
        case True
        with 0 t show ?thesis unfolding loop_polls_admitted [OF TickerC True] by simp
      next
        case False
        with 0 t show ?thesis unfolding loop_polls_denied [OF TickerC False] by simp
      qed
    next
      case (Suc j)
      have ok: "\<not> fst ?r"
      proof
        assume a: "fst ?r"
        from Cons.prems(1) Suc show False
          unfolding loop_polls_admitted [OF TickerC a] by simp
      qed
      from Cons.prems(1) Suc
      have j: "j < length (loop_polls ctx (receive_tick t ticker) its ip (snd ?r))"
        unfolding loop_polls_denied [OF TickerC ok] by simp
      from t have "next_tick ticker \<le> t" by simp
      with Cons.prems(2) have n: "next_tick ticker + period ticker \<le> next_tick (receive_tick t ticker)"
        by (rule receive_tick_next)
      from Cons.IH [OF j] Cons.prems(2)
      have "next_tick (receive_tick t ticker) + int j * period ticker
              \<le> fst (loop_polls ctx (receive_tick t ticker) its ip (snd ?r) ! j)"
        by simp
      with n Suc show ?thesis
        unfolding loop_polls_denied [OF TickerC ok] by (simp add: algebra_simps)
    qed
  qed
qed

lemma loop_polls_on_time:
  assumes "0 < period ticker"
    and "\<forall>k<length its. selectAt (its ! k) \<le> next_tick ticker + int k * period ticker"
  shows "i < length (loop_polls ctx ticker its ip trl) \<Longrightarrow>
         fst (loop_polls ctx ticker its ip trl ! i) = next_tick ticker + int i * period ticker"
  using assms
proof (induction its arbitrary: ticker trl i)
  case Nil
  then show ?case by simp
next
  case (Cons it its)
  show ?case
  proof (cases "select_ready ctx ticker (selectAt it) (pickTick it)")
    case (CtxDone e)
    with Cons.prems show ?thesis by simp
  next
    case (TickerC t)
    from Cons.prems(3) have "selectAt it \<le> next_tick ticker" by auto
    with select_tick_time [OF TickerC] have t: "t = next_tick ticker" by simp
    let ?r = "TwoTierRateLimiter_Allow (allowClock it) ip trl"
    show ?thesis
    proof (cases i)
      case 0
      show ?thesis
      proof (cases "fst ?r")
        case True
        with 0 t show ?thesis unfolding loop_polls_admitted [OF TickerC True] by simp
      next
        case False
        with 0 t show ?thesis unfolding loop_polls_denied [OF TickerC False] by simp
      qed
    next
      case (Suc j)
      have ok: "\<not> fst ?r"
      proof
        assume a: "fst ?r"
        from Cons.prems(1) Suc show False
          unfolding loop_polls_admitted [OF TickerC a] by simp
      qed
      from Cons.prems(1) Suc
      have j: "j < length (loop_polls ctx (receive_tick t ticker) its ip (snd ?r))"
        unfolding loop_polls_denied [OF TickerC ok] by simp
      from Cons.prems(2) t have n: "next_tick (receive_tick t ticker) = next_tick ticker + period ticker"
        by (simp add: receive_tick_on_time)
      have "\<forall>k<length its. selectAt (its ! k) \<le> next_tick (receive_tick t ticker) + int k * period (receive_tick t ticker)"
      proof (intro allI impI)
        fix k assume "k < length its"
        with Cons.prems(3) have "selectAt ((it # its) ! Suc k) \<le> next_tick ticker + int (Suc k) * period ticker"
          by (metis Suc_less_eq length_Cons)
        then show "selectAt (its ! k) \<le> next_tick (receive_tick t ticker) + int k * period (receive_tick t ticker)"
          by (simp add: n algebra_simps)
      qed
      with Cons.IH [OF j] Cons.prems(2)
      have "fst (loop_polls ctx (receive_tick t ticker) its ip (snd ?r) ! j)
              = next_tick (receive_tick t ticker) + int j * period ticker"
        by simp
      with n Suc show ?thesis
        unfolding loop_polls_denied [OF TickerC ok] by (simp add: algebra_simps)
    qed
  qed
qed

lemma NewTicker_fields [simp]:
  "period (NewTicker now d) = d" "next_tick (NewTicker now d) = now + d"
  by (simp_all add: NewTicker_def)

lemma loop_err_prompt:
  assumes "0 < period ticker" "ctx = Some (d, err)"
  shows "n < length its \<Longrightarrow>
         d < next_tick ticker + int n * period ticker \<Longrightarrow>
         \<forall>k\<le>n. selectAt (its ! k) < next_tick ticker + int k * period ticker \<Longrightarrow>
         fst (Allow_requests (map (\<lambda>it. (allowClock it, ip)) (take n its)) trl) = replicate n False \<Longrightarrow>
         fst (Wait_loop ctx ticker its ip trl) = ReturnsErr err"
  using assms(1)
proof (induction n arbitrary: its ticker trl)
  case 0
  then obtain it rest where its: "its = it # rest" by (cases its) auto
  from 0 its have "d < next_tick ticker" "selectAt it < next_tick ticker" by simp_all
  then have "max (selectAt it) d < max (selectAt it) (next_tick ticker)" by simp
  from loop_done_first [OF assms(2) this] show ?case unfolding its by simp
next
  case (Suc n)
  then obtain it rest where its: "its = it # rest" by (cases its) auto
  let ?r = "TwoTierRateLimiter_Allow (allowClock it) ip trl"
  show ?case
  proof (cases "select_ready ctx ticker (selectAt it) (pickTick it)")
    case (CtxDone e)
    with select_done_ctx [OF CtxDone] assms(2) have "e = err" by simp
    with CtxDone show ?thesis unfolding its by (simp add: Wait_loop_done)
  next
    case (TickerC t)
    from Suc.prems(3) its have s: "selectAt it < next_tick ticker" by auto
    with select_tick_time [OF TickerC] have t: "t = next_tick ticker" by simp
    from Suc.prems(4) its have ok: "\<not> fst ?r"
      and rest: "fst (Allow_requests (map (\<lambda>it. (allowClock it, ip)) (take n rest)) (snd ?r)) = replicate n False"
      by (simp_all add: split_beta)
    from Suc.prems(5) t have n: "next_tick (receive_tick t ticker) = next_tick ticker + period ticker"
      by (simp add: receive_tick_on_time)
    have l: "n < length rest" using Suc.prems(1) its by simp
    have d: "d < next_tick (receive_tick t ticker) + int n * period (receive_tick t ticker)"
      using Suc.prems(2) by (simp add: n algebra_simps)
    have p: "\<forall>k\<le>n. selectAt (rest ! k) < next_tick (receive_tick t ticker) + int k * period (receive_tick t ticker)"
    proof (intro allI impI)
      fix k assume "k \<le> n"
      then have "Suc k \<le> Suc n" by simp
      with Suc.prems(3) have "selectAt (its ! Suc k) < next_tick ticker + int (Suc k) * period ticker"
        by blast
      then show "selectAt (rest ! k) < next_tick (receive_tick t ticker) + int k * period (receive_tick t ticker)"
        by (simp add: its n algebra_simps)
    qed
    from Suc.prems(5) have "0 < period (receive_tick t ticker)" by simp
    from Suc.IH [OF l d p rest this]
    show ?thesis unfolding its Wait_loop_denied [OF TickerC ok] .
  qed
qed

text \<open>
  C9 (as amended). \<open>Wait\<close> polls \<open>Allow\<close> for the identifier once per tick it receives from
  a ticker of period 100 ms: the limiter it leaves is the limiter after those calls of
  \<open>Allow\<close>; poll number \<open>i\<close> receives its tick no earlier than \<open>i\<close> times 100 ms after the
  ticker was created, and exactly then as long as the loop reaches each \<open>select\<close> by the
  time the next tick is due. \<open>Wait\<close> returns nil exactly when a poll succeeds, and it has
  not returned exactly when all the iterations scheduled have polled and failed. An
  error it returns is the error of its context, and then no poll has succeeded. If the
  context is done before the tick after \<open>n\<close> polls that fail, \<open>Wait\<close> returns the
  context's error, provided the loop reaches each \<open>select\<close> before the next tick is due.
\<close>

theorem Wait_returns:
  "(fst (Wait now ctx its ip trl) = ReturnsNil \<longleftrightarrow>
      True \<in> snd ` set (Wait_polls now ctx its ip trl)) \<and>
   (fst (Wait now ctx its ip trl) = Pending \<longleftrightarrow>
      length (Wait_polls now ctx its ip trl) = length its \<and>
      True \<notin> snd ` set (Wait_polls now ctx its ip trl)) \<and>
   (fst (Wait now ctx its ip trl) = ReturnsErr err \<longrightarrow>
      (\<exists>d. ctx = Some (d, err)) \<and> True \<notin> snd ` set (Wait_polls now ctx its ip trl)) \<and>
   map snd (Wait_polls now ctx its ip trl) =
     fst (Allow_requests (map (\<lambda>it. (allowClock it, ip))
            (take (length (Wait_polls now ctx its ip trl)) its)) trl) \<and>
   snd (Wait now ctx its ip trl) =
     snd (Allow_requests (map (\<lambda>it. (allowClock it, ip))
            (take (length (Wait_polls now ctx its ip trl)) its)) trl) \<and>
   (\<forall>i<length (Wait_polls now ctx its ip trl).
      now + (int i + 1) * (100 * Millisecond) \<le> fst (Wait_polls now ctx its ip trl ! i)) \<and>
   ((\<forall>k<length its. selectAt (its ! k) \<le> now + (int k + 1) * (100 * Millisecond)) \<longrightarrow>
      (\<forall>i<length (Wait_polls now ctx its ip trl).
         fst (Wait_polls now ctx its ip trl ! i) = now + (int i + 1) * (100 * Millisecond))) \<and>
   (ctx = Some (d, err) \<and> n < length its \<and> d < now + (int n + 1) * (100 * Millisecond) \<and>
    (\<forall>k\<le>n. selectAt (its ! k) < now + (int k + 1) * (100 * Millisecond)) \<and>
    fst (Allow_requests (map (\<lambda>it. (allowClock it, ip)) (take n its)) trl) = replicate n False \<longrightarrow>
      fst (Wait now ctx its ip trl) = ReturnsErr err)"
proof -
  let ?tk = "NewTicker now (100 * Millisecond)"
  have P: "0 < period ?tk" by (simp add: Millisecond_def)
  have 1: "fst (Wait now ctx its ip trl) = ReturnsNil \<longleftrightarrow>
      True \<in> snd ` set (Wait_polls now ctx its ip trl)"
    unfolding Wait_def Wait_polls_def by (rule loop_nil_iff)
  have 2: "fst (Wait now ctx its ip trl) = Pending \<longleftrightarrow>
      length (Wait_polls now ctx its ip trl) = length its \<and>
      True \<notin> snd ` set (Wait_polls now ctx its ip trl)"
    unfolding Wait_def Wait_polls_def by (rule loop_pending_iff)
  have 3: "fst (Wait now ctx its ip trl) = ReturnsErr err \<longrightarrow>
      (\<exists>d. ctx = Some (d, err)) \<and> True \<notin> snd ` set (Wait_polls now ctx its ip trl)"
    unfolding Wait_def Wait_polls_def using loop_err by blast
  have 4: "map snd (Wait_polls now ctx its ip trl) =
     fst (Allow_requests (map (\<lambda>it. (allowClock it, ip))
            (take (length (Wait_polls now ctx its ip trl)) its)) trl) \<and>
   snd (Wait now ctx its ip trl) =
     snd (Allow_requests (map (\<lambda>it. (allowClock it, ip))
            (take (length (Wait_polls now ctx its ip trl)) its)) trl)"
    unfolding Wait_def Wait_polls_def by (rule loop_polls_are_Allow)
  have 5: "\<forall>i<length (Wait_polls now ctx its ip trl).
      now + (int i + 1) * (100 * Millisecond) \<le> fst (Wait_polls now ctx its ip trl ! i)"
  proof (intro allI impI)
    fix i assume "i < length (Wait_polls now ctx its ip trl)"
    then have "next_tick ?tk + int i * period ?tk \<le> fst (loop_polls ctx ?tk its ip trl ! i)"
      unfolding Wait_polls_def using P by (intro loop_polls_not_early)
    then show "now + (int i + 1) * (100 * Millisecond) \<le> fst (Wait_polls now ctx its ip trl ! i)"
      by (simp add: Wait_polls_def algebra_simps)
  qed
  have 6: "(\<forall>k<length its. selectAt (its ! k) \<le> now + (int k + 1) * (100 * Millisecond)) \<longrightarrow>
      (\<forall>i<length (Wait_polls now ctx its ip trl).
         fst (Wait_polls now ctx its ip trl ! i) = now + (int i + 1) * (100 * Millisecond))"
  proof (intro allI impI)
    fix i
    assume a: "\<forall>k<length its. selectAt (its ! k) \<le> now + (int k + 1) * (100 * Millisecond)"
      and i: "i < length (Wait_polls now ctx its ip trl)"
    from a have "\<forall>k<length its. selectAt (its ! k) \<le> next_tick ?tk + int k * period ?tk"
      by (simp add: algebra_simps)
    with P i have "fst (loop_polls ctx ?tk its ip trl ! i) = next_tick ?tk + int i * period ?tk"
      unfolding Wait_polls_def by (intro loop_polls_on_time)
    then show "fst (Wait_polls now ctx its ip trl ! i) = now + (int i + 1) * (100 * Millisecond)"
      by (simp add: Wait_polls_def algebra_simps)
  qed
  have 7: "ctx = Some (d, err) \<and> n < length its \<and> d < now + (int n + 1) * (100 * Millisecond) \<and>
    (\<forall>k\<le>n. selectAt (its ! k) < now + (int k + 1) * (100 * Millisecond)) \<and>
    fst (Allow_requests (map (\<lambda>it. (allowClock it, ip)) (take n its)) trl) = replicate n False \<longrightarrow>
      fst (Wait now ctx its ip trl) = ReturnsErr err"
  proof (intro impI, elim conjE)
    assume c: "ctx = Some (d, err)" and n: "n < length its"
      and d: "d < now + (int n + 1) * (100 * Millisecond)"
      and s: "\<forall>k\<le>n. selectAt (its ! k) < now + (int k + 1) * (100 * Millisecond)"
      and f: "fst (Allow_requests (map (\<lambda>it. (allowClock it, ip)) (take n its)) trl) = replicate n False"
    from d have d': "d < next_tick ?tk + int n * period ?tk" by (simp add: algebra_simps)
    from s have s': "\<forall>k\<le>n. selectAt (its ! k) < next_tick ?tk + int k * period ?tk"
      by (simp add: algebra_simps)
    from loop_err_prompt [OF P c n d' s' f] show "fst (Wait now ctx its ip trl) = ReturnsErr err"
      by (simp add: Wait_def)
  qed
  from 1 2 3 4 [THEN conjunct1] 4 [THEN conjunct2] 5 6 7 show ?thesis by (intro conjI)
qed

lemma poll_100ms:
  "TwoTierRateLimiter_Allow (100000000, 100000000, 100000000) ''192.168.1.1'' drained_limiter
     = (False, drained_limiter)"
  by (simp add: drained_limiter_def eval_defs)

lemma poll_500ms:
  "TwoTierRateLimiter_Allow (500000000, 500000000, 500000000) ''192.168.1.1'' drained_limiter
     = (True, admitted_limiter)"
  by (simp add: drained_limiter_def admitted_limiter_def eval_defs)

lemmas wait_defs = Wait_def Wait_polls_def NewTicker_def Millisecond_def select_ready_def
  receive_tick_def Let_def poll_100ms poll_500ms

text \<open>
  A context whose deadline passes at 150 ms, on the schedule that keeps up: one poll at
  100 ms, which fails, then the deadline error. And no context at all, on the schedule
  that is late: the second poll succeeds.
\<close>

theorem Wait_returns_witness:
  "(1::nat) < length prompt_iterations \<and>
   150000000 < 0 + (int 1 + 1) * (100 * Millisecond) \<and>
   selectAt (prompt_iterations ! 0) < 0 + (int 0 + 1) * (100 * Millisecond) \<and>
   selectAt (prompt_iterations ! 1) < 0 + (int 1 + 1) * (100 * Millisecond) \<and>
   fst (Allow_requests (map (\<lambda>it. (allowClock it, ''192.168.1.1'')) (take 1 prompt_iterations))
          drained_limiter) = replicate 1 False \<and>
   fst (Wait 0 (Some (150000000, DeadlineExceeded)) prompt_iterations ''192.168.1.1'' drained_limiter)
     = ReturnsErr DeadlineExceeded \<and>
   Wait_polls 0 (Some (150000000, DeadlineExceeded)) prompt_iterations ''192.168.1.1'' drained_limiter
     = [(100000000, False)] \<and>
   Wait 0 None late_iterations ''192.168.1.1'' drained_limiter = (ReturnsNil, admitted_limiter) \<and>
   Wait_polls 0 None late_iterations ''192.168.1.1'' drained_limiter
     = [(100000000, False), (450000000, True)]"
proof -
  let ?ctx = "Some (150000000, DeadlineExceeded) :: ctx"
  let ?ip = "''192.168.1.1''"
  note W = Wait_returns [of 0 ?ctx prompt_iterations ?ip drained_limiter DeadlineExceeded 150000000 1]
  note L = Wait_returns [of 0 None late_iterations ?ip drained_limiter]
  have h1: "(1::nat) < length prompt_iterations" by (simp add: prompt_iterations_def)
  have h2: "150000000 < 0 + (int 1 + 1) * (100 * Millisecond)" by (simp add: Millisecond_def)
  have h3: "selectAt (prompt_iterations ! 0) < 0 + (int 0 + 1) * (100 * Millisecond)"
    by (simp add: prompt_iterations_def Millisecond_def)
  have h4: "selectAt (prompt_iterations ! 1) < 0 + (int 1 + 1) * (100 * Millisecond)"
    by (simp add: prompt_iterations_def Millisecond_def)
  have h5: "fst (Allow_requests (map (\<lambda>it. (allowClock it, ?ip)) (take 1 prompt_iterations))
          drained_limiter) = replicate 1 False"
    by (simp add: prompt_iterations_def poll_100ms)
  have h34: "\<forall>k\<le>1. selectAt (prompt_iterations ! k) < 0 + (int k + 1) * (100 * Millisecond)"
  proof (intro allI impI)
    fix k :: nat assume "k \<le> 1"
    then consider "k = 0" | "k = 1" by linarith
    then show "selectAt (prompt_iterations ! k) < 0 + (int k + 1) * (100 * Millisecond)"
      using h3 h4 by cases simp_all
  qed
  have e: "fst (Wait 0 ?ctx prompt_iterations ?ip drained_limiter) = ReturnsErr DeadlineExceeded"
    by (rule W [THEN conjunct2, THEN conjunct2, THEN conjunct2, THEN conjunct2, THEN conjunct2,
          THEN conjunct2, THEN conjunct2, THEN mp,
          OF conjI [OF refl conjI [OF h1 conjI [OF h2 conjI [OF h34 h5]]]]])
  have p: "Wait_polls 0 ?ctx prompt_iterations ?ip drained_limiter = [(100000000, False)]"
    by (simp add: prompt_iterations_def wait_defs)
  have n: "fst (Wait 0 None late_iterations ?ip drained_limiter) = ReturnsNil"
    using L [THEN conjunct1] by (simp add: late_iterations_def wait_defs)
  have q: "Wait_polls 0 None late_iterations ?ip drained_limiter = [(100000000, False), (450000000, True)]"
    by (simp add: late_iterations_def wait_defs)
  have s: "snd (Wait 0 None late_iterations ?ip drained_limiter) = admitted_limiter"
    using L [THEN conjunct2, THEN conjunct2, THEN conjunct2, THEN conjunct2, THEN conjunct1]
    by (simp add: q) (simp add: late_iterations_def poll_100ms poll_500ms)
  from n s have v: "Wait 0 None late_iterations ?ip drained_limiter = (ReturnsNil, admitted_limiter)"
    by (simp add: prod_eq_iff)
  from h1 h2 h3 h4 h5 e p v q show ?thesis by (intro conjI)
qed

text \<open>
  C9 as stated fails when the loop reaches the \<open>select\<close> with the context done and a tick
  ready. The deadline passes at 300 ms, after one poll that failed; the loop is back at
  the \<open>select\<close> at 450 ms, where the tick of 200 ms is ready too; the \<open>select\<close> takes the
  tick, the poll succeeds and \<open>Wait\<close> returns nil, not the context's error.
\<close>

theorem Wait_returns_counterexample:
  "Wait 0 (Some (300000000, DeadlineExceeded)) late_iterations ''192.168.1.1'' drained_limiter
     = (ReturnsNil, admitted_limiter) \<and>
   Wait_polls 0 (Some (300000000, DeadlineExceeded)) late_iterations ''192.168.1.1'' drained_limiter
     = [(100000000, False), (450000000, True)] \<and>
   (300000000 :: time) < 450000000"
  by (simp add: late_iterations_def wait_defs)

section \<open>Properties of the batch analysis\<close>

subsection \<open>Go's int arithmetic\<close>

lemma int64_wrap64 [simp]: "int64 (wrap64 x)"
  by (simp add: wrap64_def int64_def MinInt64_def MaxInt64_def)

lemma wrap64_add_left [simp]: "wrap64 (wrap64 a + b) = wrap64 (a + b)"
proof -
  have "(wrap64 a + b + 9223372036854775808) mod 18446744073709551616
      = ((a + 9223372036854775808) mod 18446744073709551616 + b) mod 18446744073709551616"
    by (simp add: wrap64_def algebra_simps)
  also have "\<dots> = (a + 9223372036854775808 + b) mod 18446744073709551616"
    by (rule mod_add_left_eq)
  finally show ?thesis by (simp add: wrap64_def algebra_simps)
qed

lemma wrap64_add_right [simp]: "wrap64 (a + wrap64 b) = wrap64 (a + b)"
  using wrap64_add_left [of b a] by (simp add: add.commute)

lemma wrap64_idem [simp]: "wrap64 (wrap64 a) = wrap64 a"
  using wrap64_add_left [of a 0] by simp

lemma wrap64_sum_list_wrap64:
  "wrap64 (sum_list (map (\<lambda>x. wrap64 (f x)) xs)) = wrap64 (sum_list (map f xs))"
proof (induction xs)
  case Nil
  then show ?case by simp
next
  case (Cons x xs)
  have "wrap64 (wrap64 (f x) + sum_list (map (\<lambda>x. wrap64 (f x)) xs))
      = wrap64 (f x + wrap64 (sum_list (map (\<lambda>x. wrap64 (f x)) xs)))"
    by simp
  also have "\<dots> = wrap64 (f x + wrap64 (sum_list (map f xs)))"
    by (simp only: Cons.IH)
  finally show ?case by simp
qed

subsection \<open>Counting maps\<close>

lemma counts_add_keys:
  "map fst (counts_add k v m) = (if k \<in> fst ` set m then map fst m else map fst m @ [k])"
  by (induction m) (force split: if_splits)+

lemma counts_add_distinct:
  "distinct (map fst m) \<Longrightarrow> distinct (map fst (counts_add k v m))"
  by (simp add: counts_add_keys)

lemma counts_add_int64:
  "\<forall>p\<in>set m. int64 (snd p) \<Longrightarrow> \<forall>p\<in>set (counts_add k v m). int64 (snd p)"
  by (induction m) (fastforce split: if_splits)+

lemma map_of_counts_add:
  "map_of (counts_add k v m) =
     (map_of m)(k \<mapsto> wrap64 ((case map_of m k of Some c \<Rightarrow> c | None \<Rightarrow> 0) + v))"
  by (induction m) (auto simp: fun_eq_iff)

lemma sum_counts_add:
  "wrap64 (sum_list (map snd (counts_add k v m))) = wrap64 (sum_list (map snd m) + v)"
proof (induction m)
  case Nil
  then show ?case by simp
next
  case (Cons p m)
  obtain k' c where p: "p = (k', c)" by (cases p)
  show ?case
  proof (cases "k' = k")
    case True
    with p show ?thesis by (simp add: algebra_simps)
  next
    case False
    have "wrap64 (c + sum_list (map snd (counts_add k v m)))
        = wrap64 (c + wrap64 (sum_list (map snd (counts_add k v m))))" by simp
    also have "\<dots> = wrap64 (c + wrap64 (sum_list (map snd m) + v))"
      by (simp only: Cons.IH)
    finally show ?thesis using p False by (simp add: algebra_simps)
  qed
qed

lemma add_all_Nil [simp]: "add_all [] m = m"
  by (simp add: add_all_def)

lemma add_all_Cons [simp]: "add_all (p # adds) m = add_all adds (counts_add (fst p) (snd p) m)"
  by (simp add: add_all_def)

lemma add_all_append [simp]: "add_all (xs @ ys) m = add_all ys (add_all xs m)"
  by (simp add: add_all_def)

lemma add_all_distinct:
  "distinct (map fst m) \<Longrightarrow> distinct (map fst (add_all adds m))"
  by (induction adds arbitrary: m) (simp_all add: counts_add_distinct)

lemma add_all_int64:
  "\<forall>p\<in>set m. int64 (snd p) \<Longrightarrow> \<forall>p\<in>set (add_all adds m). int64 (snd p)"
proof (induction adds arbitrary: m)
  case Nil
  then show ?case by simp
next
  case (Cons p adds)
  from Cons.prems have "\<forall>q\<in>set (counts_add (fst p) (snd p) m). int64 (snd q)"
    by (rule counts_add_int64)
  then show ?case using Cons.IH by simp
qed

lemma add_all_keys:
  "fst ` set (add_all adds m) = fst ` set m \<union> fst ` set adds"
proof (induction adds arbitrary: m)
  case Nil
  then show ?case by simp
next
  case (Cons p adds)
  have "fst ` set (counts_add (fst p) (snd p) m) = insert (fst p) (fst ` set m)"
    using counts_add_keys [of "fst p" "snd p" m]
    by (metis (no_types, lifting) Un_insert_right append_Nil2 insert_absorb list.set_map list.simps(15) set_append)
  with Cons.IH [of "counts_add (fst p) (snd p) m"] show ?case by auto
qed

lemma add_all_sum:
  "wrap64 (sum_list (map snd (add_all adds m))) =
     wrap64 (sum_list (map snd m) + sum_list (map snd adds))"
proof (induction adds arbitrary: m)
  case Nil
  then show ?case by simp
next
  case (Cons p adds)
  have "wrap64 (sum_list (map snd (add_all adds (counts_add (fst p) (snd p) m))))
      = wrap64 (sum_list (map snd (counts_add (fst p) (snd p) m)) + sum_list (map snd adds))"
    by (rule Cons.IH)
  also have "\<dots> = wrap64 (wrap64 (sum_list (map snd (counts_add (fst p) (snd p) m))) + sum_list (map snd adds))"
    by simp
  also have "\<dots> = wrap64 (wrap64 (sum_list (map snd m) + snd p) + sum_list (map snd adds))"
    by (simp only: sum_counts_add)
  finally show ?case by (simp add: algebra_simps)
qed

lemma add_all_lookup:
  assumes "\<forall>p\<in>set m. int64 (snd p)" "k \<in> fst ` set m \<union> fst ` set adds"
  shows "map_of (add_all adds m) k =
     Some (wrap64 ((case map_of m k of Some c \<Rightarrow> c | None \<Rightarrow> 0)
                   + sum_list (map snd (filter (\<lambda>p. fst p = k) adds))))"
  using assms
proof (induction adds arbitrary: m)
  case Nil
  then have "map_of m k \<noteq> None" by (simp add: map_of_eq_None_iff)
  then obtain c where c: "map_of m k = Some c" by blast
  then have "(k, c) \<in> set m" by (rule map_of_SomeD)
  with Nil.prems(1) have "int64 c" by auto
  with c show ?case by (simp add: wrap64_id)
next
  case (Cons p adds)
  let ?m1 = "counts_add (fst p) (snd p) m"
  from Cons.prems(1) have i: "\<forall>q\<in>set ?m1. int64 (snd q)" by (rule counts_add_int64)
  have "fst ` set ?m1 = insert (fst p) (fst ` set m)"
    using counts_add_keys [of "fst p" "snd p" m]
    by (metis (no_types, lifting) Un_insert_right append_Nil2 insert_absorb list.set_map list.simps(15) set_append)
  with Cons.prems(2) have k: "k \<in> fst ` set ?m1 \<union> fst ` set adds" by auto
  from Cons.IH [OF i k] show ?case
    by (auto simp: map_of_counts_add algebra_simps split: option.splits)
qed

lemma pair_advertiser_inverse [simp]: "advertiser_pair (pair_advertiser p) = p"
  by (simp add: advertiser_pair_def pair_advertiser_def)

lemma advertiser_pair_inverse [simp]: "pair_advertiser (advertiser_pair a) = a"
  by (simp add: advertiser_pair_def pair_advertiser_def)

lemma range_counts_fst:
  "fst (range_counts m (as, t)) = as @ map pair_advertiser m"
  by (induction m arbitrary: as t) (auto simp: pair_advertiser_def)

lemma range_counts_snd:
  "int64 t \<Longrightarrow> snd (range_counts m (as, t)) = wrap64 (t + sum_list (map snd m))"
proof (induction m arbitrary: as t)
  case Nil
  then show ?case by (simp add: wrap64_id)
next
  case (Cons p m)
  obtain d c where p: "p = (d, c)" by (cases p)
  have "snd (range_counts m (as @ [\<lparr>ai_Domain = d, ai_Count = c\<rparr>], wrap64 (t + c)))
      = wrap64 (wrap64 (t + c) + sum_list (map snd m))"
    by (rule Cons.IH) simp
  with p show ?case by (simp add: algebra_simps)
qed

subsection \<open>Sorting\<close>

lemma mset_insert_Slice [simp]: "mset (insert_Slice lt x xs) = add_mset x (mset xs)"
  by (induction xs) simp_all

lemma mset_sort_Slice [simp]: "mset (sort_Slice lt xs) = mset xs"
  by (induction xs) simp_all

lemma set_sort_Slice [simp]: "set (sort_Slice lt xs) = set xs"
  using mset_sort_Slice [of lt xs] by (metis set_mset_mset)

lemma set_insert_Slice [simp]: "set (insert_Slice lt x xs) = insert x (set xs)"
  using mset_insert_Slice [of lt x xs] by (metis set_mset_mset set_mset_add_mset_insert)

lemma advertiser_le_iff:
  "advertiser_le a b \<longleftrightarrow>
     ai_Count a > ai_Count b \<or> (ai_Count a = ai_Count b \<and> ai_Domain a \<le> ai_Domain b)"
  by (auto simp: advertiser_le_def advertiser_less_def)

lemma advertiser_le_trans:
  "advertiser_le a b \<Longrightarrow> advertiser_le b c \<Longrightarrow> advertiser_le a c"
  by (auto simp: advertiser_le_iff)

lemma advertiser_less_le: "advertiser_less a b \<Longrightarrow> advertiser_le a b"
  by (auto simp: advertiser_le_iff advertiser_less_def split: if_splits)

lemma advertiser_le_antisym:
  "advertiser_le a b \<Longrightarrow> advertiser_le b a \<Longrightarrow> a = (b :: AdvertiserInfo)"
  by (cases a, cases b) (auto simp: advertiser_le_iff)

lemma sorted_insert_Slice:
  "sorted_wrt advertiser_le xs \<Longrightarrow> sorted_wrt advertiser_le (insert_Slice advertiser_less x xs)"
proof (induction xs)
  case Nil
  then show ?case by simp
next
  case (Cons y ys)
  show ?case
  proof (cases "advertiser_less y x")
    case True
    with Cons show ?thesis by (auto simp: advertiser_less_le)
  next
    case False
    then have "advertiser_le x y" by (simp add: advertiser_le_def)
    with Cons.prems False show ?thesis by (auto intro: advertiser_le_trans)
  qed
qed

lemma sorted_sort_Slice: "sorted_wrt advertiser_le (sort_Slice advertiser_less xs)"
  by (induction xs) (simp_all add: sorted_insert_Slice)

lemma sorted_wrt_unique:
  assumes "\<And>a b. R a b \<Longrightarrow> R b a \<Longrightarrow> a = b"
  shows "sorted_wrt R xs \<Longrightarrow> sorted_wrt R ys \<Longrightarrow> mset xs = mset ys \<Longrightarrow> xs = ys"
proof (induction xs arbitrary: ys)
  case Nil
  then show ?case by simp
next
  case (Cons x xs)
  from Cons.prems(3) obtain y ys' where ys: "ys = y # ys'" by (cases ys) auto
  have "x = y"
  proof (rule ccontr)
    assume ne: "x \<noteq> y"
    from Cons.prems(3) ys have "x \<in> set (y # ys')" by (metis list.set_intros(1) mset_eq_setD)
    with ne have "x \<in> set ys'" by simp
    with Cons.prems(2) ys have 1: "R y x" by simp
    from Cons.prems(3) ys have "y \<in> set (x # xs)" by (metis list.set_intros(1) mset_eq_setD)
    with ne have "y \<in> set xs" by auto
    with Cons.prems(1) have 2: "R x y" by simp
    from assms [OF 1 2] ne show False by simp
  qed
  with Cons.prems ys have "xs = ys'" by (intro Cons.IH) simp_all
  with \<open>x = y\<close> ys show ?case by simp
qed

lemma sort_Slice_unique:
  "mset xs = mset ys \<Longrightarrow> sort_Slice advertiser_less xs = sort_Slice advertiser_less ys"
  by (rule sorted_wrt_unique [of advertiser_le])
     (auto intro: advertiser_le_antisym simp: sorted_sort_Slice)

lemma sorted_strict:
  assumes "sorted_wrt advertiser_le xs" "distinct (map ai_Domain xs)"
  shows "sorted_wrt count_desc_domain_asc xs"
  using assms
proof (induction xs)
  case Nil
  then show ?case by simp
next
  case (Cons x xs)
  have "count_desc_domain_asc x y" if "y \<in> set xs" for y
  proof -
    from that Cons.prems(1) have le: "advertiser_le x y" by simp
    from that Cons.prems(2) have "ai_Domain x \<noteq> ai_Domain y" by auto
    with le show ?thesis
      by (auto simp: advertiser_le_iff count_desc_domain_asc_def)
  qed
  with Cons show ?case by simp
qed

subsection \<open>The schedule\<close>

lemma mset_arrival [simp]: "mset (arrival sched xs) = mset xs"
proof (induction sched xs rule: arrival.induct)
  case (3 k sched x xs)
  let ?later = "arrival sched xs"
  let ?i = "k mod (length ?later + 1)"
  have "mset (take ?i ?later) + mset (drop ?i ?later) = mset (take ?i ?later @ drop ?i ?later)"
    by (simp only: mset_append)
  also have "\<dots> = mset ?later" by (simp only: append_take_drop_id)
  finally have "mset (take ?i ?later) + mset (drop ?i ?later) = mset xs"
    using 3 by simp
  then show ?case by (simp add: Let_def)
qed simp_all

lemma length_arrival [simp]: "length (arrival sched xs) = length xs"
  using mset_arrival [of sched xs] by (metis size_mset)

subsection \<open>The aggregator\<close>

lemma fold_aggregate_results:
  "results (fold aggregate_one arrived st) = results st @ arrived"
  by (induction arrived arbitrary: st) (simp_all add: aggregate_one_def Let_def)

lemma fold_aggregate_Total:
  "bs_Total (summary (fold aggregate_one arrived st)) = bs_Total (summary st)"
  by (induction arrived arbitrary: st) (simp_all add: aggregate_one_def Let_def)

lemma fold_aggregate_Succeeded:
  "bs_Succeeded (summary (fold aggregate_one arrived st)) =
     bs_Succeeded (summary st) + int (length (filter dr_Success arrived))"
  by (induction arrived arbitrary: st) (simp_all add: aggregate_one_def Let_def)

lemma fold_aggregate_Failed:
  "bs_Failed (summary (fold aggregate_one arrived st)) =
     bs_Failed (summary st) + int (length (filter (\<lambda>r. \<not> dr_Success r) arrived))"
  by (induction arrived arbitrary: st) (simp_all add: aggregate_one_def Let_def)

lemma fold_counts_add:
  "fold (\<lambda>advertiser counts. counts_add (ai_Domain advertiser) (ai_Count advertiser) counts) as m
     = add_all (map advertiser_pair as) m"
  by (induction as arbitrary: m) (simp_all add: advertiser_pair_def)

lemma fold_aggregate_counts:
  "advertiserCounts (fold aggregate_one arrived st) =
     add_all (map advertiser_pair (succeeded_advertisers arrived)) (advertiserCounts st)"
  by (induction arrived arbitrary: st)
     (simp_all add: aggregate_one_def Let_def succeeded_advertisers_def fold_counts_add)

lemma aggregateResults_Results [simp]: "Results (aggregateResults arrived n) = arrived"
  by (simp add: aggregateResults_def Let_def split_beta fold_aggregate_results)

lemma aggregateResults_Summary [simp]:
  "Summary (aggregateResults arrived n) =
     \<lparr>bs_Total = n, bs_Succeeded = int (length (filter dr_Success arrived)),
      bs_Failed = int (length (filter (\<lambda>r. \<not> dr_Success r) arrived))\<rparr>"
  by (simp add: aggregateResults_def Let_def split_beta fold_aggregate_Total
      fold_aggregate_Succeeded fold_aggregate_Failed)

lemma aggregateResults_Advertisers:
  "Advertisers (aggregateResults arrived n) =
     sort_Slice advertiser_less
       (map pair_advertiser (add_all (map advertiser_pair (succeeded_advertisers arrived)) []))"
  by (simp add: aggregateResults_def Let_def split_beta fold_aggregate_counts range_counts_fst)

lemma aggregateResults_TotalAdvertisers:
  "TotalAdvertisers (aggregateResults arrived n) = count_sum (succeeded_advertisers arrived)"
proof -
  have "int64 0" by (simp add: int64_def MinInt64_def MaxInt64_def)
  then have "TotalAdvertisers (aggregateResults arrived n) =
      wrap64 (sum_list (map snd (add_all (map advertiser_pair (succeeded_advertisers arrived)) [])))"
    by (simp add: aggregateResults_def Let_def split_beta fold_aggregate_counts range_counts_snd)
  also have "\<dots> = wrap64 (sum_list (map snd (map advertiser_pair (succeeded_advertisers arrived))))"
    using add_all_sum [of "map advertiser_pair (succeeded_advertisers arrived)" "[]"] by simp
  also have "map snd (map advertiser_pair (succeeded_advertisers arrived))
      = map ai_Count (succeeded_advertisers arrived)"
    by (simp add: advertiser_pair_def)
  finally show ?thesis by (simp add: count_sum_def)
qed

lemma length_filter_partition:
  "int (length (filter P xs)) + int (length (filter (\<lambda>x. \<not> P x) xs)) = int (length xs)"
  using sum_length_filter_compl [of P xs] by simp

text \<open>The table of the aggregator: one entry per advertiser domain of a succeeded result.\<close>

lemma table_distinct:
  "distinct (map ai_Domain (map pair_advertiser (add_all adds [])))"
proof -
  have "distinct (map fst (add_all adds []))" by (rule add_all_distinct) simp
  moreover have "map ai_Domain (map pair_advertiser (add_all adds [])) = map fst (add_all adds [])"
    by (simp add: pair_advertiser_def comp_def)
  ultimately show ?thesis by (simp only:)
qed

lemma table_domains:
  "ai_Domain ` set (map pair_advertiser (add_all (map advertiser_pair as) [])) = ai_Domain ` set as"
proof -
  have "ai_Domain ` set (map pair_advertiser (add_all (map advertiser_pair as) []))
      = fst ` set (add_all (map advertiser_pair as) [])"
    by (simp add: pair_advertiser_def image_image)
  also have "\<dots> = fst ` set (map advertiser_pair as)"
    by (simp add: add_all_keys)
  also have "\<dots> = ai_Domain ` set as"
    by (simp add: advertiser_pair_def image_image)
  finally show ?thesis .
qed

lemma table_counts:
  assumes "a \<in> set (map pair_advertiser (add_all (map advertiser_pair as) []))"
  shows "ai_Count a = count_sum (filter (\<lambda>b. ai_Domain b = ai_Domain a) as)"
proof -
  let ?m = "add_all (map advertiser_pair as) []"
  from assms have in_m: "advertiser_pair a \<in> set ?m"
    by (auto simp: image_iff)
  have d: "distinct (map fst ?m)" by (rule add_all_distinct) simp
  from in_m have "(ai_Domain a, ai_Count a) \<in> set ?m" by (simp add: advertiser_pair_def)
  with d have 1: "map_of ?m (ai_Domain a) = Some (ai_Count a)" by simp
  from in_m have "fst (advertiser_pair a) \<in> fst ` set ?m"
    by (rule imageI)
  then have "ai_Domain a \<in> fst ` set ?m"
    by (simp add: advertiser_pair_def)
  then have k: "ai_Domain a \<in> fst ` set [] \<union> fst ` set (map advertiser_pair as)"
    by (simp add: add_all_keys)
  have "map_of ?m (ai_Domain a) =
     Some (wrap64 ((case map_of [] (ai_Domain a) of Some c \<Rightarrow> c | None \<Rightarrow> 0)
                   + sum_list (map snd (filter (\<lambda>p. fst p = ai_Domain a) (map advertiser_pair as)))))"
    by (rule add_all_lookup [OF _ k]) simp
  with 1 have "ai_Count a = wrap64 (sum_list (map snd (filter (\<lambda>p. fst p = ai_Domain a) (map advertiser_pair as))))"
    by simp
  also have "map snd (filter (\<lambda>p. fst p = ai_Domain a) (map advertiser_pair as))
     = map ai_Count (filter (\<lambda>b. ai_Domain b = ai_Domain a) as)"
    by (induction as) (simp_all add: advertiser_pair_def)
  finally show ?thesis by (simp add: count_sum_def)
qed

subsection \<open>The results of the workers\<close>

lemma worker_Domain [simp]: "dr_Domain (worker s env d) = d"
  by (simp add: worker_def split: sum.splits)

lemma produced_domains:
  "map dr_Domain (map (\<lambda>(i, d). worker s (envs i) d) (enumerate n domains)) = domains"
  by (induction domains arbitrary: n) simp_all

lemma produced_length:
  "length (map (\<lambda>(i, d). worker s (envs i) d) (enumerate n domains)) = length domains"
  by simp

lemma produced_nth:
  "i < length domains \<Longrightarrow>
   map (\<lambda>(i, d). worker s (envs i) d) (enumerate 0 domains) ! i = worker s (envs i) (domains ! i)"
  by (simp add: nth_enumerate_eq)

lemma AnalyzeDomains_Returns:
  assumes "AnalyzeDomains s envs sched domains = Returns (resp, err)" "domains \<noteq> []"
  shows "resp = aggregateResults
                (arrival sched (map (\<lambda>(i, d). worker s (envs i) d) (enumerate 0 domains)))
                (int (length domains))"
    and "err = None" and "0 < maxConcurrent s"
  using assms by (auto simp: AnalyzeDomains_def split: if_splits)

lemma AnalyzeDomains_empty:
  "AnalyzeDomains s envs sched [] =
     Returns (\<lparr>Results = [], Summary = \<lparr>bs_Total = 0, bs_Succeeded = 0, bs_Failed = 0\<rparr>,
               Advertisers = [], TotalAdvertisers = 0\<rparr>, None)"
  by (simp add: AnalyzeDomains_def)

lemma AnalyzeDomains_positive:
  assumes "0 < maxConcurrent s"
  shows "AnalyzeDomains s envs sched domains =
     Returns (if domains = []
              then \<lparr>Results = [], Summary = \<lparr>bs_Total = 0, bs_Succeeded = 0, bs_Failed = 0\<rparr>,
                    Advertisers = [], TotalAdvertisers = 0\<rparr>
              else aggregateResults
                (arrival sched (map (\<lambda>(i, d). worker s (envs i) d) (enumerate 0 domains)))
                (int (length domains)), None)"
  using assms by (simp add: AnalyzeDomains_def)

lemma AnalyzeDomains_Results:
  assumes "AnalyzeDomains s envs sched domains = Returns (resp, err)"
  shows "mset (Results resp) = mset (map (\<lambda>(i, d). worker s (envs i) d) (enumerate 0 domains))"
proof (cases "domains = []")
  case True
  with assms show ?thesis by (auto simp add: AnalyzeDomains_empty)
next
  case False
  from AnalyzeDomains_Returns(1) [OF assms False] show ?thesis by simp
qed

text \<open>
  C6 (as amended). For a service whose bound \<open>maxConcurrent\<close> is at least 1 and every
  list of \<open>N\<close> domains, whatever the collaborators answer and whatever the schedule,
  \<open>AnalyzeDomains\<close> returns a response (and a nil error) whose summary has \<open>total = N\<close> and
  \<open>succeeded + failed = N\<close> and which holds exactly \<open>N\<close> results, one for each entry of the
  input: the domains of the results are the domains of the input, as a multiset, and so
  pairwise distinct when the input's are. For the empty list the call returns the
  zero-valued summary, no results and an empty aggregate list, for every service and
  without regard to the collaborators: no pipeline is invoked.
\<close>

theorem batch_completeness:
  "(0 < maxConcurrent s \<longrightarrow>
      (\<exists>resp. AnalyzeDomains s envs sched domains = Returns (resp, None) \<and>
         bs_Total (Summary resp) = int (length domains) \<and>
         bs_Succeeded (Summary resp) + bs_Failed (Summary resp) = int (length domains) \<and>
         length (Results resp) = length domains \<and>
         mset (map dr_Domain (Results resp)) = mset domains \<and>
         (distinct domains \<longrightarrow> distinct (map dr_Domain (Results resp))))) \<and>
   AnalyzeDomains s envs sched [] =
     Returns (\<lparr>Results = [], Summary = \<lparr>bs_Total = 0, bs_Succeeded = 0, bs_Failed = 0\<rparr>,
               Advertisers = [], TotalAdvertisers = 0\<rparr>, None)"
proof (intro conjI impI)
  assume pos: "0 < maxConcurrent s"
  let ?produced = "map (\<lambda>(i, d). worker s (envs i) d) (enumerate 0 domains)"
  show "\<exists>resp. AnalyzeDomains s envs sched domains = Returns (resp, None) \<and>
         bs_Total (Summary resp) = int (length domains) \<and>
         bs_Succeeded (Summary resp) + bs_Failed (Summary resp) = int (length domains) \<and>
         length (Results resp) = length domains \<and>
         mset (map dr_Domain (Results resp)) = mset domains \<and>
         (distinct domains \<longrightarrow> distinct (map dr_Domain (Results resp)))"
  proof (cases "domains = []")
    case True
    then show ?thesis by (simp add: AnalyzeDomains_empty)
  next
    case False
    let ?resp = "aggregateResults (arrival sched ?produced) (int (length domains))"
    from pos False have r: "AnalyzeDomains s envs sched domains = Returns (?resp, None)"
      by (simp add: AnalyzeDomains_positive)
    have m: "mset (map dr_Domain (Results ?resp)) = mset domains"
    proof -
      have "mset (map dr_Domain (arrival sched ?produced)) = image_mset dr_Domain (mset (arrival sched ?produced))"
        by (simp only: mset_map)
      also have "\<dots> = image_mset dr_Domain (mset ?produced)" by (simp only: mset_arrival)
      also have "\<dots> = mset (map dr_Domain ?produced)" by (simp only: mset_map)
      also have "\<dots> = mset domains" by (simp only: produced_domains)
      finally show ?thesis by simp
    qed
    have d: "distinct (map dr_Domain (Results ?resp))" if "distinct domains"
      using m that by (metis mset_eq_imp_distinct_iff)
    have "bs_Succeeded (Summary ?resp) + bs_Failed (Summary ?resp) = int (length domains)"
      using length_filter_partition [of dr_Success "arrival sched ?produced"] by simp
    with r m d show ?thesis by simp
  qed
next
  show "AnalyzeDomains s envs sched [] =
     Returns (\<lparr>Results = [], Summary = \<lparr>bs_Total = 0, bs_Succeeded = 0, bs_Failed = 0\<rparr>,
               Advertisers = [], TotalAdvertisers = 0\<rparr>, None)"
    by (rule AnalyzeDomains_empty)
qed

lemma sum_list_mset_cong:
  "mset xs = mset ys \<Longrightarrow> sum_list (map f xs) = (sum_list (map f ys) :: int)"
proof -
  assume "mset xs = mset ys"
  then have "sum_mset (image_mset f (mset xs)) = sum_mset (image_mset f (mset ys))" by simp
  then have "sum_mset (mset (map f xs)) = sum_mset (mset (map f ys))" by (simp only: mset_map)
  then show ?thesis by (simp only: sum_mset_sum_list)
qed

lemma buildAnalysis_consistent: "consistent_analysis (buildAnalysis d entries)"
proof -
  let ?counts = "CountAdvertisers entries"
  have z: "int64 0" by (simp add: int64_def MinInt64_def MaxInt64_def)
  have t: "da_TotalAdvertisers (buildAnalysis d entries) = wrap64 (sum_list (map snd ?counts))"
    using range_counts_snd [OF z, of ?counts "[]"]
    by (simp add: buildAnalysis_def Let_def split_beta)
  have a: "da_Advertisers (buildAnalysis d entries) = sort_Slice advertiser_less (map pair_advertiser ?counts)"
    by (simp add: buildAnalysis_def Let_def split_beta range_counts_fst)
  have "sum_list (map ai_Count (sort_Slice advertiser_less (map pair_advertiser ?counts)))
      = sum_list (map ai_Count (map pair_advertiser ?counts))"
    by (rule sum_list_mset_cong) simp
  also have "map ai_Count (map pair_advertiser ?counts) = map snd ?counts"
    by (simp add: pair_advertiser_def comp_def)
  finally show ?thesis using t a by (simp add: consistent_analysis_def count_sum_def)
qed

lemma worker_consistent:
  assumes "\<forall>a. cache_Get env = Some a \<longrightarrow> consistent_analysis a"
    and "dr_Success (worker s env d)"
  shows "consistent_result (worker s env d)"
proof (cases "AnalyzeDomain s env d")
  case (Inl e)
  with assms(2) show ?thesis by (simp add: worker_def)
next
  case (Inr a)
  have "consistent_analysis a"
  proof (cases "cache_Get env")
    case None
    with Inr obtain entries where "a = buildAnalysis d entries"
      by (auto simp: AnalyzeDomain_def split: sum.splits)
    then show ?thesis by (simp add: buildAnalysis_consistent)
  next
    case (Some c)
    with Inr have "a = c\<lparr>da_Cached := True\<rparr>" by (simp add: AnalyzeDomain_def)
    moreover from Some assms(1) have "consistent_analysis c" by simp
    ultimately show ?thesis by (simp add: consistent_analysis_def)
  qed
  with Inr show ?thesis
    by (simp add: worker_def consistent_result_def consistent_analysis_def)
qed

lemma sum_list_concat_map:
  "sum_list (map (\<lambda>r. sum_list (map f (g r))) xs) = (sum_list (map f (concat (map g xs))) :: int)"
  by (induction xs) simp_all

lemma sum_of_totals:
  assumes "\<forall>r\<in>set rs. dr_Success r \<longrightarrow> consistent_result r"
  shows "wrap64 (sum_list (map dr_TotalAdvertisers (filter dr_Success rs))) =
         count_sum (succeeded_advertisers rs)"
proof -
  let ?ok = "filter dr_Success rs"
  from assms have "map dr_TotalAdvertisers ?ok
      = map (\<lambda>r. wrap64 (sum_list (map ai_Count (dr_Advertisers r)))) ?ok"
    by (intro map_cong) (auto simp: consistent_result_def count_sum_def)
  then have "wrap64 (sum_list (map dr_TotalAdvertisers ?ok))
      = wrap64 (sum_list (map (\<lambda>r. sum_list (map ai_Count (dr_Advertisers r))) ?ok))"
    by (simp only: wrap64_sum_list_wrap64)
  also have "sum_list (map (\<lambda>r. sum_list (map ai_Count (dr_Advertisers r))) ?ok)
      = sum_list (map ai_Count (concat (map dr_Advertisers ?ok)))"
    by (rule sum_list_concat_map)
  finally show ?thesis by (simp add: count_sum_def succeeded_advertisers_def)
qed

lemma produced_consistent:
  assumes "\<forall>i<length domains. \<forall>a. cache_Get (envs i) = Some a \<longrightarrow> consistent_analysis a"
    and "r \<in> set (map (\<lambda>(i, d). worker s (envs i) d) (enumerate 0 domains))" "dr_Success r"
  shows "consistent_result r"
proof -
  from assms(2) obtain i where i: "i < length domains" and r: "r = worker s (envs i) (domains ! i)"
    by (auto simp: in_set_conv_nth nth_enumerate_eq)
  from assms(1) i have "\<forall>a. cache_Get (envs i) = Some a \<longrightarrow> consistent_analysis a" by simp
  with assms(3) r show ?thesis by (simp add: worker_consistent)
qed

text \<open>
  C7 (as amended). In the response \<open>AnalyzeDomains\<close> returns, the aggregate list has one
  entry for each advertiser domain of the succeeded results and no other, and the count of
  an entry is the sum of that domain's counts over the succeeded results (a failed result
  carries no advertisers). \<open>TotalAdvertisers\<close> is the sum of all advertiser counts of the
  succeeded results; it is the sum of \<open>totalAdvertisers\<close> over the succeeded results
  whenever every analysis the cache serves has the sum of its counts as its total, as
  every analysis built by \<open>buildAnalysis\<close> has. The list is sorted by count descending,
  ties broken by advertiser domain ascending. Sums are sums of Go's \<open>int\<close>.
\<close>

theorem aggregation:
  assumes "AnalyzeDomains s envs sched domains = Returns (resp, err)"
  shows "distinct (map ai_Domain (Advertisers resp)) \<and>
         ai_Domain ` set (Advertisers resp) = ai_Domain ` set (succeeded_advertisers (Results resp)) \<and>
         (\<forall>a\<in>set (Advertisers resp).
            ai_Count a = count_sum (filter (\<lambda>b. ai_Domain b = ai_Domain a)
                                      (succeeded_advertisers (Results resp)))) \<and>
         TotalAdvertisers resp = count_sum (succeeded_advertisers (Results resp)) \<and>
         ((\<forall>i<length domains. \<forall>a. cache_Get (envs i) = Some a \<longrightarrow> consistent_analysis a) \<longrightarrow>
            TotalAdvertisers resp =
              wrap64 (sum_list (map dr_TotalAdvertisers (filter dr_Success (Results resp))))) \<and>
         sorted_wrt count_desc_domain_asc (Advertisers resp)"
proof (cases "domains = []")
  case True
  with assms have "resp = \<lparr>Results = [], Summary = \<lparr>bs_Total = 0, bs_Succeeded = 0, bs_Failed = 0\<rparr>,
               Advertisers = [], TotalAdvertisers = 0\<rparr>"
    by (simp add: AnalyzeDomains_empty)
  then show ?thesis
    by (simp add: succeeded_advertisers_def count_sum_def wrap64_def)
next
  case False
  let ?produced = "map (\<lambda>(i, d). worker s (envs i) d) (enumerate 0 domains)"
  let ?arrived = "arrival sched ?produced"
  let ?as = "succeeded_advertisers ?arrived"
  let ?table = "map pair_advertiser (add_all (map advertiser_pair ?as) [])"
  from AnalyzeDomains_Returns(1) [OF assms False]
  have resp: "resp = aggregateResults ?arrived (int (length domains))" .
  have res: "Results resp = ?arrived" by (simp add: resp)
  have adv: "Advertisers resp = sort_Slice advertiser_less ?table"
    by (simp add: resp aggregateResults_Advertisers)
  have tot: "TotalAdvertisers resp = count_sum ?as"
    by (simp add: resp aggregateResults_TotalAdvertisers)
  have "mset (map ai_Domain (Advertisers resp)) = mset (map ai_Domain ?table)"
    unfolding adv by (simp only: mset_map mset_sort_Slice)
  with table_distinct [of "map advertiser_pair ?as"]
  have 1: "distinct (map ai_Domain (Advertisers resp))"
    by (metis mset_eq_imp_distinct_iff)
  have 2: "ai_Domain ` set (Advertisers resp) = ai_Domain ` set (succeeded_advertisers (Results resp))"
    unfolding adv res set_sort_Slice by (rule table_domains)
  have 3: "\<forall>a\<in>set (Advertisers resp).
            ai_Count a = count_sum (filter (\<lambda>b. ai_Domain b = ai_Domain a)
                                      (succeeded_advertisers (Results resp)))"
    unfolding adv res set_sort_Slice by (auto intro: table_counts)
  have 4: "TotalAdvertisers resp = count_sum (succeeded_advertisers (Results resp))"
    by (simp add: tot res)
  have 5: "TotalAdvertisers resp =
              wrap64 (sum_list (map dr_TotalAdvertisers (filter dr_Success (Results resp))))"
    if c: "\<forall>i<length domains. \<forall>a. cache_Get (envs i) = Some a \<longrightarrow> consistent_analysis a"
  proof -
    have "\<forall>r\<in>set ?arrived. dr_Success r \<longrightarrow> consistent_result r"
    proof (intro ballI impI)
      fix r assume "r \<in> set ?arrived" "dr_Success r"
      moreover have "set ?arrived = set ?produced"
        using mset_arrival [of sched ?produced] by (metis set_mset_mset)
      ultimately show "consistent_result r"
        using produced_consistent [OF c] by blast
    qed
    then show ?thesis unfolding 4 res by (simp only: sum_of_totals)
  qed
  have "sorted_wrt advertiser_le (Advertisers resp)"
    unfolding adv by (rule sorted_sort_Slice)
  then have 6: "sorted_wrt count_desc_domain_asc (Advertisers resp)"
    using 1 by (rule sorted_strict)
  from 1 2 3 4 5 6 show ?thesis by blast
qed

lemma DomainError_Error_nonempty: "DomainError_Error e \<noteq> []"
  by (simp add: DomainError_Error_def split: option.splits)

text \<open>
  C8. Whenever \<open>AnalyzeDomains\<close> returns, the error it returns is nil, and every domain
  whose pipeline failed has its result in the response, with \<open>success = false\<close> and the
  (non-empty) message of the pipeline's error. With a bound of at least 1 the call does
  return.
\<close>

theorem no_batch_error:
  "(AnalyzeDomains s envs sched domains = Returns (resp, err) \<longrightarrow>
      err = None \<and>
      (\<forall>i<length domains. \<forall>e. AnalyzeDomain s (envs i) (domains ! i) = Inl e \<longrightarrow>
         \<lparr>dr_Domain = domains ! i, dr_TotalAdvertisers = 0, dr_Advertisers = [], dr_Cached = False,
          dr_Error = DomainError_Error e, dr_Success = False\<rparr> \<in> set (Results resp) \<and>
         DomainError_Error e \<noteq> [])) \<and>
   (0 < maxConcurrent s \<longrightarrow> (\<exists>resp. AnalyzeDomains s envs sched domains = Returns (resp, None)))"
proof (intro conjI impI allI)
  assume r: "AnalyzeDomains s envs sched domains = Returns (resp, err)"
  then show "err = None" by (auto simp: AnalyzeDomains_def split: if_splits)
next
  fix i e
  assume r: "AnalyzeDomains s envs sched domains = Returns (resp, err)"
    and i: "i < length domains" and e: "AnalyzeDomain s (envs i) (domains ! i) = Inl e"
  let ?produced = "map (\<lambda>(i, d). worker s (envs i) d) (enumerate 0 domains)"
  from i have "?produced ! i \<in> set ?produced" by (intro nth_mem) simp
  with i have "worker s (envs i) (domains ! i) \<in> set ?produced"
    by (simp add: nth_enumerate_eq)
  moreover have "set (Results resp) = set ?produced"
    using AnalyzeDomains_Results [OF r] by (metis set_mset_mset)
  ultimately have "worker s (envs i) (domains ! i) \<in> set (Results resp)" by simp
  with e show "\<lparr>dr_Domain = domains ! i, dr_TotalAdvertisers = 0, dr_Advertisers = [], dr_Cached = False,
          dr_Error = DomainError_Error e, dr_Success = False\<rparr> \<in> set (Results resp)"
    by (simp add: worker_def)
next
  fix i e
  show "DomainError_Error e \<noteq> []" by (rule DomainError_Error_nonempty)
next
  assume "0 < maxConcurrent s"
  then show "\<exists>resp. AnalyzeDomains s envs sched domains = Returns (resp, None)"
    by (simp add: AnalyzeDomains_positive)
qed

section \<open>Properties of the batch handler\<close>

text \<open>
  C10. \<open>AnalyzeBatchDomains\<close>, given a decoded request: if the list of domains is empty it
  answers 400 with the error \<open>domains array cannot be empty\<close>; if it has more than 100
  domains it answers 400 with the error \<open>too many domains\<close>; in both cases it makes no
  call to the analysis service, whatever that service is.
\<close>

theorem batch_validation:
  "(Domains request = [] \<longrightarrow>
      AnalyzeBatchDomains analysisService (Inr request) =
        (Some \<lparr>statusCode = 400,
               body = ErrorBody \<lparr>Error = ''domains array cannot be empty'', Message = ''''\<rparr>\<rparr>, [])) \<and>
   (100 < length (Domains request) \<longrightarrow>
      AnalyzeBatchDomains analysisService (Inr request) =
        (Some \<lparr>statusCode = 400,
               body = ErrorBody \<lparr>Error = ''too many domains'',
                                 Message = ''Maximum 100 domains per batch''\<rparr>\<rparr>, []))"
  by (auto simp: AnalyzeBatchDomains_def writeErrorResponse_def)

lemma example_run:
  "AnalyzeDomains example_service example_envs [2, 0, 0] [''a.com'', ''b.com'', ''c.com'']
     = Returns (example_response, None)"
  by code_simp

lemma stale_run:
  "AnalyzeDomains example_service stale_envs [] [''x.com'']
     = Returns (\<lparr>Results = [\<lparr>dr_Domain = ''x.com'', dr_TotalAdvertisers = 5,
                    dr_Advertisers = [\<lparr>ai_Domain = ''google.com'', ai_Count = 1\<rparr>],
                    dr_Cached = True, dr_Error = [], dr_Success = True\<rparr>],
      Summary = \<lparr>bs_Total = 1, bs_Succeeded = 1, bs_Failed = 0\<rparr>,
      Advertisers = [\<lparr>ai_Domain = ''google.com'', ai_Count = 1\<rparr>],
      TotalAdvertisers = 1\<rparr>, None)"
  by code_simp

lemma stalled_run:
  "AnalyzeDomains stalled_service example_envs [] [''a.com''] = Blocks"
  by (simp add: AnalyzeDomains_def stalled_service_def)

theorem batch_completeness_witness:
  "0 < maxConcurrent example_service \<and>
   AnalyzeDomains example_service example_envs [2, 0, 0] [''a.com'', ''b.com'', ''c.com'']
     = Returns (example_response, None) \<and>
   bs_Total (Summary example_response) = int (length [''a.com'', ''b.com'', ''c.com'']) \<and>
   bs_Succeeded (Summary example_response) + bs_Failed (Summary example_response)
     = int (length [''a.com'', ''b.com'', ''c.com'']) \<and>
   length (Results example_response) = length [''a.com'', ''b.com'', ''c.com''] \<and>
   mset (map dr_Domain (Results example_response)) = mset [''a.com'', ''b.com'', ''c.com''] \<and>
   distinct [''a.com'', ''b.com'', ''c.com''] \<and>
   distinct (map dr_Domain (Results example_response))"
proof -
  have h: "0 < maxConcurrent example_service" by (simp add: example_service_def)
  have d: "distinct [''a.com'', ''b.com'', ''c.com'']" by simp
  from batch_completeness [of example_service example_envs "[2, 0, 0]" "[''a.com'', ''b.com'', ''c.com'']"] h
  obtain resp where r: "AnalyzeDomains example_service example_envs [2, 0, 0] [''a.com'', ''b.com'', ''c.com'']
        = Returns (resp, None)"
    and p: "bs_Total (Summary resp) = int (length [''a.com'', ''b.com'', ''c.com''])"
      "bs_Succeeded (Summary resp) + bs_Failed (Summary resp) = int (length [''a.com'', ''b.com'', ''c.com''])"
      "length (Results resp) = length [''a.com'', ''b.com'', ''c.com'']"
      "mset (map dr_Domain (Results resp)) = mset [''a.com'', ''b.com'', ''c.com'']"
      "distinct [''a.com'', ''b.com'', ''c.com''] \<longrightarrow> distinct (map dr_Domain (Results resp))"
    by blast
  from r have "resp = example_response" by (simp add: example_run)
  with r p h d show ?thesis by blast
qed

text \<open>
  C6 as stated fails for a service whose bound is 0: the call for a batch of one domain
  never returns.
\<close>

theorem batch_completeness_counterexample:
  "maxConcurrent stalled_service = 0 \<and>
   AnalyzeDomains stalled_service example_envs [] [''a.com''] = Blocks"
  by (simp add: AnalyzeDomains_def stalled_service_def)

theorem aggregation_witness:
  "AnalyzeDomains example_service example_envs [2, 0, 0] [''a.com'', ''b.com'', ''c.com'']
     = Returns (example_response, None) \<and>
   consistent_analysis \<lparr>da_Domain = ''c.com'', da_TotalAdvertisers = 2,
                         da_Advertisers = [\<lparr>ai_Domain = ''g'', ai_Count = 2\<rparr>], da_Cached = False\<rparr> \<and>
   distinct (map ai_Domain (Advertisers example_response)) \<and>
   ai_Domain ` set (Advertisers example_response)
     = ai_Domain ` set (succeeded_advertisers (Results example_response)) \<and>
   TotalAdvertisers example_response = count_sum (succeeded_advertisers (Results example_response)) \<and>
   TotalAdvertisers example_response
     = wrap64 (sum_list (map dr_TotalAdvertisers (filter dr_Success (Results example_response)))) \<and>
   sorted_wrt count_desc_domain_asc (Advertisers example_response) \<and>
   Advertisers example_response =
     [\<lparr>ai_Domain = ''g'', ai_Count = 5\<rparr>, \<lparr>ai_Domain = ''a'', ai_Count = 1\<rparr>,
      \<lparr>ai_Domain = ''f'', ai_Count = 1\<rparr>] \<and>
   TotalAdvertisers example_response = 7"
proof -
  have c: "consistent_analysis \<lparr>da_Domain = ''c.com'', da_TotalAdvertisers = 2,
                         da_Advertisers = [\<lparr>ai_Domain = ''g'', ai_Count = 2\<rparr>], da_Cached = False\<rparr>"
    by (simp add: consistent_analysis_def count_sum_def wrap64_def)
  then have h: "\<forall>i<length [''a.com'', ''b.com'', ''c.com''].
      \<forall>a. cache_Get (example_envs i) = Some a \<longrightarrow> consistent_analysis a"
    by (simp add: example_envs_def)
  from aggregation [OF example_run] h c example_run show ?thesis
    by (simp add: example_response_def)
qed

text \<open>
  C7 as stated fails when the cache serves an analysis whose total is not the sum of its
  counts: the response's \<open>TotalAdvertisers\<close> is 1 and its one succeeded result has
  \<open>totalAdvertisers = 5\<close>.
\<close>

theorem aggregation_counterexample:
  "AnalyzeDomains example_service stale_envs [] [''x.com''] = Returns (stale_response, None) \<and>
   TotalAdvertisers stale_response = 1 \<and>
   sum_list (map dr_TotalAdvertisers (filter dr_Success (Results stale_response))) = 5"
  by code_simp

theorem no_batch_error_witness:
  "AnalyzeDomains example_service example_envs [2, 0, 0] [''a.com'', ''b.com'', ''c.com'']
     = Returns (example_response, None) \<and>
   (1::nat) < length [''a.com'', ''b.com'', ''c.com''] \<and>
   AnalyzeDomain example_service (example_envs 1) ([''a.com'', ''b.com'', ''c.com''] ! 1) =
     Inl \<lparr>de_Domain = ''b.com'', de_Message = ''failed to fetch ads.txt'',
          de_Err = Some ''timeout while fetching ads.txt''\<rparr> \<and>
   \<lparr>dr_Domain = ''b.com'', dr_TotalAdvertisers = 0, dr_Advertisers = [], dr_Cached = False,
    dr_Error = ''domain b.com: failed to fetch ads.txt: timeout while fetching ads.txt'',
    dr_Success = False\<rparr> \<in> set (Results example_response) \<and>
   0 < maxConcurrent example_service"
proof -
  have e: "AnalyzeDomain example_service (example_envs 1) ([''a.com'', ''b.com'', ''c.com''] ! 1) =
     Inl \<lparr>de_Domain = ''b.com'', de_Message = ''failed to fetch ads.txt'',
          de_Err = Some ''timeout while fetching ads.txt''\<rparr>"
    by (simp add: AnalyzeDomain_def example_envs_def NewDomainError_def)
  have h: "0 < maxConcurrent example_service" by (simp add: example_service_def)
  have l: "(1::nat) < length [''a.com'', ''b.com'', ''c.com'']" by simp
  note t = no_batch_error [of example_service example_envs "[2, 0, 0]" "[''a.com'', ''b.com'', ''c.com'']"
      example_response None]
  from t [THEN conjunct1, THEN mp, OF example_run, THEN conjunct2, THEN spec, THEN mp, OF l,
      THEN spec, THEN mp, OF e, THEN conjunct1]
  have "\<lparr>dr_Domain = [''a.com'', ''b.com'', ''c.com''] ! 1, dr_TotalAdvertisers = 0, dr_Advertisers = [],
          dr_Cached = False,
          dr_Error = DomainError_Error \<lparr>de_Domain = ''b.com'', de_Message = ''failed to fetch ads.txt'',
          de_Err = Some ''timeout while fetching ads.txt''\<rparr>, dr_Success = False\<rparr>
        \<in> set (Results example_response)" .
  with example_run e h show ?thesis by (simp add: DomainError_Error_def)
qed

theorem batch_validation_witness:
  "Domains \<lparr>Domains = []\<rparr> = [] \<and>
   AnalyzeBatchDomains (AnalyzeDomains example_service example_envs []) (Inr \<lparr>Domains = []\<rparr>) =
     (Some \<lparr>statusCode = 400,
            body = ErrorBody \<lparr>Error = ''domains array cannot be empty'', Message = ''''\<rparr>\<rparr>, []) \<and>
   100 < length (Domains \<lparr>Domains = replicate 101 ''a.com''\<rparr>) \<and>
   AnalyzeBatchDomains (AnalyzeDomains example_service example_envs [])
       (Inr \<lparr>Domains = replicate 101 ''a.com''\<rparr>) =
     (Some \<lparr>statusCode = 400,
            body = ErrorBody \<lparr>Error = ''too many domains'',
                              Message = ''Maximum 100 domains per batch''\<rparr>\<rparr>, [])"
  using batch_validation [of "\<lparr>Domains = []\<rparr>" "AnalyzeDomains example_service example_envs []"]
    batch_validation [of "\<lparr>Domains = replicate 101 ''a.com''\<rparr>" "AnalyzeDomains example_service example_envs []"]
  by simp

end
